theory Spec2Isabelle
  imports Main "HOL-Library.Sublist"
begin

section \<open>Data model of \<open>index.ts\<close>\<close>

text \<open>
  Instants are JavaScript \<open>Date\<close> values, read through \<open>getTime()\<close>: whole milliseconds
  since the epoch, so an \<open>int\<close>. JavaScript strings are modelled as their UTF-8 bytes; equality
  and \<open>startsWith\<close> on well-formed strings agree with equality and \<open>prefix\<close> on the bytes.
  An optional field (\<open>lastPing?\<close>, \<open>status?\<close>) is an \<open>option\<close>. \<open>lastLogin\<close> is declared
  \<open>Date\<close>, but \<open>cleanupInactiveAccounts\<close> tests it for falsiness, so it is optional here as
  well: \<open>None\<close> is the account whose \<open>lastLogin\<close> is missing.
\<close>

type_synonym instant = int

record PingTarget =
  url :: string
  lastPing :: "instant option"
  status :: "string option"

record User =
  id_u :: string
  username :: string
  password :: string
  pingTargets :: "PingTarget list"
  lastLogin :: "instant option"

record Session =
  userId :: string
  expires :: instant

text \<open>
  The two globals: \<open>users\<close> is an array, \<open>sessions\<close> an object used as a dictionary from
  session id to \<open>Session\<close>. The dictionary is an association list read with \<open>map_of\<close>;
  \<open>delete sessions[k]\<close> removes every entry of the key.
\<close>

type_synonym session_store = "(string \<times> Session) list"

record state =
  users :: "User list"
  sessions :: session_store

definition delete_key :: "string \<Rightarrow> session_store \<Rightarrow> session_store" where
  "delete_key k ss = filter (\<lambda>e. fst e \<noteq> k) ss"

definition object_keys :: "session_store \<Rightarrow> string list" where
  "object_keys ss = remdups (map fst ss)"

text \<open>
  What the program does to the outside world is recorded as a list of events:
  \<open>saveUsers()\<close> writes the whole \<open>users\<close> array, \<open>console.log\<close> prints a line (kept as the
  values interpolated into it), \<open>fetch\<close> issues a GET request.
\<close>

datatype log_line =
    DeletedInactive instant int
  | StartingPingCycle instant
  | Pinged string string string

datatype event =
    Saved "User list"
  | Logged log_line
  | Fetched string

section \<open>The account reaper: \<open>cleanupInactiveAccounts\<close>\<close>

definition twoDaysAgo :: "instant \<Rightarrow> instant" where
  "twoDaysAgo now = now - 2 * 24 * 60 * 60 * 1000"

definition lastLogin_date :: "User \<Rightarrow> instant" where
  "lastLogin_date user = (case lastLogin user of Some t \<Rightarrow> t | None \<Rightarrow> 0)"

definition keep_user :: "instant \<Rightarrow> User \<Rightarrow> bool" where
  "keep_user now user = (lastLogin_date user > twoDaysAgo now)"

definition prune_session :: "User list \<Rightarrow> session_store \<Rightarrow> string \<Rightarrow> session_store" where
  "prune_session us ss sessionId =
     (case map_of ss sessionId of
        None \<Rightarrow> ss
      | Some session \<Rightarrow>
          (case find (\<lambda>u. id_u u = userId session) us of
             None \<Rightarrow> delete_key sessionId ss
           | Some userExists \<Rightarrow> ss))"

definition prune_sessions :: "User list \<Rightarrow> session_store \<Rightarrow> session_store" where
  "prune_sessions us ss = foldl (prune_session us) ss (object_keys ss)"

definition cleanupInactiveAccounts :: "instant \<Rightarrow> state \<Rightarrow> state \<times> event list" where
  "cleanupInactiveAccounts now st =
     (let initialCount = int (length (users st));
          users' = filter (keep_user now) (users st);
          deletedCount = initialCount - int (length users')
      in if deletedCount > 0
         then (\<lparr>users = users', sessions = prune_sessions users' (sessions st)\<rparr>,
               [Logged (DeletedInactive now deletedCount), Saved users'])
         else (\<lparr>users = users', sessions = sessions st\<rparr>, []))"

section \<open>Session validation: \<open>isValidSession\<close>\<close>

definition isValidSession :: "instant \<Rightarrow> state \<Rightarrow> string \<Rightarrow> state \<times> User option" where
  "isValidSession now st sessionId =
     (case map_of (sessions st) sessionId of
        None \<Rightarrow> (st\<lparr>sessions := delete_key sessionId (sessions st)\<rparr>, None)
      | Some session \<Rightarrow>
          if expires session < now
          then (st\<lparr>sessions := delete_key sessionId (sessions st)\<rparr>, None)
          else (st, find (\<lambda>u. id_u u = userId session) (users st)))"

section \<open>The prober: \<open>pingUrl\<close>\<close>

text \<open>
  \<open>fetch\<close> is the environment. For a URL and the instant the request starts it settles
  after some milliseconds, either with a response (status code and status text) or with a
  rejection (the error's message). The clock advances only while a request is pending.
  \<open>pingUrl\<close> returns on both branches of its \<open>try\<close>, so it has no raising path.
\<close>

datatype fetch_result =
    Response nat string
  | Rejected string

type_synonym network = "string \<Rightarrow> instant \<Rightarrow> fetch_result \<times> nat"

record PingResult =
  result_status :: string
  responseTime :: int

definition digit_char :: "nat \<Rightarrow> char" where
  "digit_char d = ''0123456789'' ! d"

fun show_nat :: "nat \<Rightarrow> string" where
  "show_nat n =
     (if n < 10 then [digit_char n] else show_nat (n div 10) @ [digit_char (n mod 10)])"

declare show_nat.simps [simp del]

definition show_int :: "int \<Rightarrow> string" where
  "show_int i = (if i < 0 then CHR ''-'' # show_nat (nat (- i)) else show_nat (nat i))"

definition pingUrl :: "network \<Rightarrow> instant \<Rightarrow> string \<Rightarrow> PingResult \<times> instant \<times> event list" where
  "pingUrl net clock u =
     (let startTime = clock;
          settled = net u startTime;
          clock' = startTime + int (snd settled)
      in case fst settled of
           Response code statusText \<Rightarrow>
             (\<lparr>result_status = show_nat code @ '' '' @ statusText,
               responseTime = clock' - startTime\<rparr>, clock', [Fetched u])
         | Rejected message \<Rightarrow>
             (\<lparr>result_status = ''Error: '' @ message,
               responseTime = clock' - startTime\<rparr>, clock', [Fetched u]))"

section \<open>The sweep: \<open>pingAllUrls\<close>\<close>

text \<open>
  One tick, run without interleaving. The inner loop is shared with the \<open>/ping-now\<close>
  endpoint, which does not log; \<open>report\<close> is the \<open>console.log\<close> of the loop body. The
  \<open>catch\<close> of the loop body is never entered, since \<open>pingUrl\<close> does not raise.
\<close>

definition format_status :: "PingResult \<Rightarrow> string" where
  "format_status result =
     result_status result @ '' ('' @ show_int (responseTime result) @ ''ms)''"

fun ping_targets ::
  "network \<Rightarrow> (string \<Rightarrow> string \<Rightarrow> event list) \<Rightarrow> instant \<Rightarrow> PingTarget list
     \<Rightarrow> PingTarget list \<times> instant \<times> event list" where
  "ping_targets net report clock [] = ([], clock, [])"
| "ping_targets net report clock (target # rest) =
     (case pingUrl net clock (url target) of
        (result, clock1, ev1) \<Rightarrow>
          (case ping_targets net report clock1 rest of
             (rest', clock2, ev2) \<Rightarrow>
               (target\<lparr>lastPing := Some clock1, status := Some (format_status result)\<rparr> # rest',
                clock2,
                ev1 @ report (url target) (format_status result) @ ev2)))"

definition log_pinged :: "User \<Rightarrow> string \<Rightarrow> string \<Rightarrow> event list" where
  "log_pinged user u s = [Logged (Pinged u (username user) s)]"

fun ping_users :: "network \<Rightarrow> instant \<Rightarrow> User list \<Rightarrow> User list \<times> instant \<times> event list" where
  "ping_users net clock [] = ([], clock, [])"
| "ping_users net clock (user # rest) =
     (case ping_targets net (log_pinged user) clock (pingTargets user) of
        (targets', clock1, ev1) \<Rightarrow>
          (case ping_users net clock1 rest of
             (rest', clock2, ev2) \<Rightarrow>
               (user\<lparr>pingTargets := targets'\<rparr> # rest', clock2, ev1 @ ev2)))"

definition pingAllUrls :: "network \<Rightarrow> instant \<Rightarrow> state \<Rightarrow> state \<times> instant \<times> event list" where
  "pingAllUrls net clock st =
     (case ping_users net clock (users st) of
        (users', clock', ev) \<Rightarrow>
          (st\<lparr>users := users'\<rparr>, clock',
           Logged (StartingPingCycle clock) # ev @ [Saved users']))"

section \<open>The request handlers\<close>

text \<open>
  A request is handled in one step at the instant \<open>now\<close>. A form field read with
  \<open>params.get\<close> is \<open>None\<close> when the field is missing. \<open>crypto.randomUUID()\<close>,
  \<open>generateSessionId()\<close> and \<open>hashPassword\<close> are inputs of the step.
\<close>

datatype page_error = MissingFields | UsernameTaken | WrongCredentials

datatype set_cookie = SetSession string | ClearSession

datatype response =
    AuthPage nat "page_error option"
  | Found string "set_cookie option"
  | Dashboard User

datatype request =
    Register "string option" "string option"
  | Login "string option" "string option"
  | Logout
  | Add "string option"
  | Remove "string option"
  | PingNow
  | Other

definition falsy :: "string option \<Rightarrow> bool" where
  "falsy p = (case p of None \<Rightarrow> True | Some s \<Rightarrow> s = [])"

fun set_key :: "string \<Rightarrow> Session \<Rightarrow> session_store \<Rightarrow> session_store" where
  "set_key k v [] = [(k, v)]"
| "set_key k v (e # es) = (if fst e = k then (k, v) # es else e # set_key k v es)"

fun update_first :: "(User \<Rightarrow> bool) \<Rightarrow> (User \<Rightarrow> User) \<Rightarrow> User list \<Rightarrow> User list" where
  "update_first P f [] = []"
| "update_first P f (u # us) = (if P u then f u # us else u # update_first P f us)"

definition session_lifetime :: "instant \<Rightarrow> instant" where
  "session_lifetime now = now + 24 * 60 * 60 * 1000"

definition neverPinged :: string where
  "neverPinged = ''Ch'' @ [CHR 0xC6, CHR 0xB0] @ ''a ping''"

definition register_endpoint ::
  "(string \<Rightarrow> string) \<Rightarrow> string \<Rightarrow> string \<Rightarrow> instant \<Rightarrow> string option \<Rightarrow> string option
     \<Rightarrow> state \<Rightarrow> state \<times> event list \<times> response" where
  "register_endpoint hashPassword uuid sessionId now uname pw st =
     (if falsy uname \<or> falsy pw then (st, [], AuthPage 400 (Some MissingFields))
      else if find (\<lambda>u. username u = the uname) (users st) \<noteq> None
      then (st, [], AuthPage 400 (Some UsernameTaken))
      else
        (let newUser = \<lparr>id_u = uuid, username = the uname, password = hashPassword (the pw),
                         pingTargets = [], lastLogin = Some now\<rparr>;
             users' = users st @ [newUser]
         in (\<lparr>users = users',
              sessions = set_key sessionId
                \<lparr>userId = id_u newUser, expires = session_lifetime now\<rparr> (sessions st)\<rparr>,
             [Saved users'],
             Found ''/'' (Some (SetSession sessionId)))))"

definition login_endpoint ::
  "(string \<Rightarrow> string) \<Rightarrow> string \<Rightarrow> instant \<Rightarrow> string option \<Rightarrow> string option
     \<Rightarrow> state \<Rightarrow> state \<times> event list \<times> response" where
  "login_endpoint hashPassword sessionId now uname pw st =
     (let matches = (\<lambda>u. Some (username u) = uname
                        \<and> password u = hashPassword (if falsy pw then [] else the pw))
      in case find matches (users st) of
           None \<Rightarrow> (st, [], AuthPage 400 (Some WrongCredentials))
         | Some user \<Rightarrow>
             (let users' = update_first matches (\<lambda>u. u\<lparr>lastLogin := Some now\<rparr>) (users st)
              in (\<lparr>users = users',
                   sessions = set_key sessionId
                     \<lparr>userId = id_u user, expires = session_lifetime now\<rparr> (sessions st)\<rparr>,
                  [Saved users'],
                  Found ''/'' (Some (SetSession sessionId)))))"

definition logout_endpoint :: "string option \<Rightarrow> state \<Rightarrow> state \<times> event list \<times> response" where
  "logout_endpoint cookie st =
     ((if falsy cookie then st else st\<lparr>sessions := delete_key (the cookie) (sessions st)\<rparr>),
      [], Found ''/'' (Some ClearSession))"

text \<open>
  The bodies of the \<open>/add\<close> and \<open>/remove\<close> handlers on \<open>currentUser.pingTargets\<close>; the
  flag says whether \<open>saveUsers()\<close> was called.
\<close>

definition addTarget :: "string option \<Rightarrow> PingTarget list \<Rightarrow> PingTarget list \<times> bool" where
  "addTarget newUrl targets =
     (case newUrl of
        None \<Rightarrow> (targets, False)
      | Some u \<Rightarrow>
          if u \<noteq> [] \<and> (prefix ''http://'' u \<or> prefix ''https://'' u)
          then (case find (\<lambda>target. url target = u) targets of
                  None \<Rightarrow>
                    (targets @ [\<lparr>url = u, lastPing = None, status = Some neverPinged\<rparr>], True)
                | Some exists \<Rightarrow> (targets, False))
          else (targets, False))"

definition removeTarget :: "string option \<Rightarrow> PingTarget list \<Rightarrow> PingTarget list \<times> bool" where
  "removeTarget urlToRemove targets =
     (case urlToRemove of
        None \<Rightarrow> (targets, False)
      | Some u \<Rightarrow>
          if u \<noteq> [] then (filter (\<lambda>target. url target \<noteq> u) targets, True)
          else (targets, False))"

text \<open>
  \<open>currentUser\<close> is the object \<open>users.find\<close> returned, so a write to it is a write to the
  first account of the array with its id.
\<close>

definition write_targets ::
  "User \<Rightarrow> PingTarget list \<times> bool \<Rightarrow> state \<Rightarrow> state \<times> event list \<times> response" where
  "write_targets currentUser r st =
     (let users' = update_first (\<lambda>u. id_u u = id_u currentUser)
                     (\<lambda>u. u\<lparr>pingTargets := fst r\<rparr>) (users st)
      in (st\<lparr>users := users'\<rparr>, (if snd r then [Saved users'] else []), Found ''/'' None))"

definition add_endpoint :: "string option \<Rightarrow> User \<Rightarrow> state \<Rightarrow> state \<times> event list \<times> response" where
  "add_endpoint newUrl currentUser st =
     write_targets currentUser (addTarget newUrl (pingTargets currentUser)) st"

definition remove_endpoint :: "string option \<Rightarrow> User \<Rightarrow> state \<Rightarrow> state \<times> event list \<times> response" where
  "remove_endpoint urlToRemove currentUser st =
     write_targets currentUser (removeTarget urlToRemove (pingTargets currentUser)) st"

definition ping_now_endpoint ::
  "network \<Rightarrow> instant \<Rightarrow> User \<Rightarrow> state \<Rightarrow> state \<times> event list \<times> response" where
  "ping_now_endpoint net now currentUser st =
     (case ping_targets net (\<lambda>u s. []) now (pingTargets currentUser) of
        (targets', clock', ev) \<Rightarrow>
          (let users' = update_first (\<lambda>u. id_u u = id_u currentUser)
                          (\<lambda>u. u\<lparr>pingTargets := targets'\<rparr>) (users st)
           in (st\<lparr>users := users'\<rparr>, ev @ [Saved users'], Found ''/'' None)))"

definition server ::
  "(string \<Rightarrow> string) \<Rightarrow> network \<Rightarrow> string \<Rightarrow> string \<Rightarrow> instant \<Rightarrow> string option \<Rightarrow> request
     \<Rightarrow> state \<Rightarrow> state \<times> event list \<times> response" where
  "server hashPassword net uuid sessionId now cookie req st =
     (case (if falsy cookie then (st, None) else isValidSession now st (the cookie)) of
        (st1, currentUser) \<Rightarrow>
          (case req of
             Register uname pw \<Rightarrow> register_endpoint hashPassword uuid sessionId now uname pw st1
           | Login uname pw \<Rightarrow> login_endpoint hashPassword sessionId now uname pw st1
           | Logout \<Rightarrow> logout_endpoint cookie st1
           | _ \<Rightarrow>
               (case currentUser of
                  None \<Rightarrow> (st1, [], AuthPage 200 None)
                | Some cu \<Rightarrow>
                    (case req of
                       Add newUrl \<Rightarrow> add_endpoint newUrl cu st1
                     | Remove urlToRemove \<Rightarrow> remove_endpoint urlToRemove cu st1
                     | PingNow \<Rightarrow> ping_now_endpoint net now cu st1
                     | _ \<Rightarrow> (st1, [], Dashboard cu)))))"

section \<open>Reachable states\<close>

text \<open>
  The process starts with the accounts loaded from \<open>users.json\<close> and no session; from
  there a step is a request, a reaper tick or a sweep tick.
\<close>

inductive reachable :: "state \<Rightarrow> bool" where
  start: "reachable \<lparr>users = loaded, sessions = []\<rparr>"
| request: "reachable st \<Longrightarrow>
     reachable (fst (server hashPassword net uuid sessionId now cookie req st))"
| reaper: "reachable st \<Longrightarrow> reachable (fst (cleanupInactiveAccounts now st))"
| sweep: "reachable st \<Longrightarrow> reachable (fst (pingAllUrls net clock st))"

section \<open>Observations used in the statements\<close>

text \<open>
  The operations that touch the target list of one account, the requests and saves of an
  event list, the URLs of all accounts in the order of the double loop, and what it means
  for a target to carry the outcome of a probe started at or after \<open>clock\<close>.
\<close>

datatype target_op =
    AddOp "string option"
  | RemoveOp "string option"
  | PingOp network instant

fun apply_op :: "PingTarget list \<Rightarrow> target_op \<Rightarrow> PingTarget list" where
  "apply_op targets (AddOp newUrl) = fst (addTarget newUrl targets)"
| "apply_op targets (RemoveOp urlToRemove) = fst (removeTarget urlToRemove targets)"
| "apply_op targets (PingOp net clock) = fst (ping_targets net (\<lambda>u s. []) clock targets)"

fun fetched :: "event list \<Rightarrow> string list" where
  "fetched [] = []"
| "fetched (Fetched u # ev) = u # fetched ev"
| "fetched (e # ev) = fetched ev"

fun saves :: "event list \<Rightarrow> User list list" where
  "saves [] = []"
| "saves (Saved us # ev) = us # saves ev"
| "saves (e # ev) = saves ev"

definition all_urls :: "User list \<Rightarrow> string list" where
  "all_urls us = concat (map (\<lambda>user. map url (pingTargets user)) us)"

definition probed :: "network \<Rightarrow> instant \<Rightarrow> PingTarget \<Rightarrow> bool" where
  "probed net clock t =
     (\<exists>start result finish.
        clock \<le> start \<and> start \<le> finish \<and>
        pingUrl net start (url t) = (result, finish, [Fetched (url t)]) \<and>
        status t = Some (result_status result @ '' ('' @ show_int (responseTime result) @ ''ms)'') \<and>
        lastPing t = Some finish)"

section \<open>Ticks on the timer\<close>

text \<open>
  \<open>setInterval(pingAllUrls, 3 * 1000)\<close> calls \<open>pingAllUrls\<close> every 3000 ms from the instant
  \<open>boot\<close> at which the line runs; the call returns at its first \<open>await\<close>, so the timer
  never waits for a tick to finish. Tick \<open>k\<close> starts at \<open>tick_start boot k\<close> and ends where
  \<open>pingAllUrls\<close> started there ends. Between two \<open>await\<close>s the loop body runs without
  interruption: it is one write, made at the instant the probe settles, of \<open>lastPing\<close> (the
  \<open>new Date()\<close> of that instant) and \<open>status\<close> on the target at a position of an account.
  \<open>target_writes\<close> and \<open>user_writes\<close> are the two loops of \<open>pingAllUrls\<close> again, listing the
  writes with their instants instead of performing them. A probe depends on the URL and the
  clock only, and a sweep changes no URL, so the writes of every tick are computed on the
  same array. With the sweep as the only writer, what happens to the array is the writes
  of all ticks in the order of their instants (\<open>history\<close>; writes of the same millisecond
  are taken older tick first), and \<open>replay\<close> performs them.
\<close>

record target_write =
  w_at :: instant
  w_account :: nat
  w_target :: nat
  w_started :: instant
  w_lastPing :: instant
  w_status :: string

fun target_writes ::
  "network \<Rightarrow> nat \<Rightarrow> nat \<Rightarrow> instant \<Rightarrow> PingTarget list \<Rightarrow> target_write list \<times> instant" where
  "target_writes net i j clock [] = ([], clock)"
| "target_writes net i j clock (target # rest) =
     (case pingUrl net clock (url target) of
        (result, clock1, ev1) \<Rightarrow>
          (case target_writes net i (Suc j) clock1 rest of
             (ws, clock2) \<Rightarrow>
               (\<lparr>w_at = clock1, w_account = i, w_target = j, w_started = clock,
                 w_lastPing = clock1, w_status = format_status result\<rparr> # ws, clock2)))"

fun user_writes :: "network \<Rightarrow> nat \<Rightarrow> instant \<Rightarrow> User list \<Rightarrow> target_write list \<times> instant" where
  "user_writes net i clock [] = ([], clock)"
| "user_writes net i clock (user # rest) =
     (case target_writes net i 0 clock (pingTargets user) of
        (ws1, clock1) \<Rightarrow>
          (case user_writes net (Suc i) clock1 rest of
             (ws2, clock2) \<Rightarrow> (ws1 @ ws2, clock2)))"

definition tick_writes :: "network \<Rightarrow> instant \<Rightarrow> User list \<Rightarrow> target_write list" where
  "tick_writes net start us = fst (user_writes net 0 start us)"

definition apply_write :: "User list \<Rightarrow> target_write \<Rightarrow> User list" where
  "apply_write us w =
     (if w_account w < length us \<and> w_target w < length (pingTargets (us ! w_account w))
      then us[w_account w := (us ! w_account w)
             \<lparr>pingTargets := (pingTargets (us ! w_account w))
                [w_target w := (pingTargets (us ! w_account w) ! w_target w)
                   \<lparr>lastPing := Some (w_lastPing w), status := Some (w_status w)\<rparr>]\<rparr>]
      else us)"

definition replay :: "target_write list \<Rightarrow> User list \<Rightarrow> User list" where
  "replay ws us = foldl apply_write us ws"

definition tick_start :: "instant \<Rightarrow> nat \<Rightarrow> instant" where
  "tick_start boot k = boot + (int k + 1) * (3 * 1000)"

definition tick_end :: "network \<Rightarrow> instant \<Rightarrow> state \<Rightarrow> nat \<Rightarrow> instant" where
  "tick_end net boot st k = fst (snd (pingAllUrls net (tick_start boot k) st))"

definition tick_duration :: "network \<Rightarrow> instant \<Rightarrow> User list \<Rightarrow> int" where
  "tick_duration net start us =
     sum_list (map (\<lambda>w. w_at w - w_started w) (tick_writes net start us))"

definition all_writes :: "network \<Rightarrow> instant \<Rightarrow> User list \<Rightarrow> nat \<Rightarrow> target_write list" where
  "all_writes net boot us n =
     concat (map (\<lambda>k. tick_writes net (tick_start boot k) us) [0..<n])"

definition history :: "network \<Rightarrow> instant \<Rightarrow> User list \<Rightarrow> nat \<Rightarrow> target_write list" where
  "history net boot us n = sort_key w_at (all_writes net boot us n)"

definition on_target :: "nat \<Rightarrow> nat \<Rightarrow> target_write \<Rightarrow> bool" where
  "on_target i j w = (w_account w = i \<and> w_target w = j)"

text \<open>
  What the writes of a run of the loop from \<open>start\<close> to \<open>finish\<close> look like: each probe
  starts at or after \<open>start\<close>, is written at or after its own start and by \<open>finish\<close>, with
  the instant of the write as its \<open>lastPing\<close>; the writes are in the order of their instants
  and of their probes' starts; and the run lasts as long as its probes.
\<close>

definition tick_shape :: "instant \<Rightarrow> target_write list \<Rightarrow> instant \<Rightarrow> bool" where
  "tick_shape start ws finish =
     (start \<le> finish \<and>
      (\<forall>w \<in> set ws. start \<le> w_started w \<and> w_started w \<le> w_at w \<and> w_at w \<le> finish \<and>
                     w_lastPing w = w_at w) \<and>
      sorted (map w_at ws) \<and> sorted (map w_started ws) \<and>
      finish = start + sum_list (map (\<lambda>w. w_at w - w_started w) ws))"

section \<open>The session invariant\<close>

text \<open>Every session of the dictionary names the id of an account of the array.\<close>

definition sessions_resolve :: "state \<Rightarrow> bool" where
  "sessions_resolve st =
     list_all (\<lambda>k. case map_of (sessions st) k of
                      None \<Rightarrow> True
                    | Some s \<Rightarrow> find (\<lambda>u. id_u u = userId s) (users st) \<noteq> None)
       (object_keys (sessions st))"

section \<open>Example data\<close>

text \<open>
  Concrete accounts, sessions, networks and results on which the theorems are evaluated:
  an account whose last login is at instant 1000 with a session that expires at 1000; the
  state after \<open>alice\<close> registers at instant 1000; the same account with two targets; a
  network that answers \<open>200 OK\<close> after 42 ms and one that refuses every connection after
  7 ms; what a tick started at 5000 leaves behind in each case; a network that takes
  4000 ms before instant 6000 and 10 ms from then on, an account with one target, and the
  writes of the first two ticks under the slow and under the quick network.
\<close>

definition alice :: User where
  "alice = \<lparr>id_u = ''u1'', username = ''alice'', password = ''5e88'', pingTargets = [],
            lastLogin = Some 1000\<rparr>"

definition session0 :: Session where
  "session0 = \<lparr>userId = ''u1'', expires = 1000\<rparr>"

definition st0 :: state where
  "st0 = \<lparr>users = [alice], sessions = [(''tok'', session0)]\<rparr>"

definition net0 :: network where
  "net0 = (\<lambda>u t. (Response 200 ''OK'', 42))"

definition registered :: state where
  "registered =
     fst (server (\<lambda>p. p) net0 ''u1'' ''tok'' 1000 None
            (Register (Some ''alice'') (Some ''secret'')) \<lparr>users = [], sessions = []\<rparr>)"

definition alice_r :: User where
  "alice_r = \<lparr>id_u = ''u1'', username = ''alice'', password = ''secret'', pingTargets = [],
              lastLogin = Some 1000\<rparr>"

definition session_r :: Session where
  "session_r = \<lparr>userId = ''u1'', expires = 86401000\<rparr>"

definition example_target :: PingTarget where
  "example_target = \<lparr>url = ''https://example.com'', lastPing = None, status = Some neverPinged\<rparr>"

definition other_target :: PingTarget where
  "other_target = \<lparr>url = ''http://other.test'', lastPing = Some 5, status = Some ''200 OK (3ms)''\<rparr>"

definition alice_t :: User where
  "alice_t = alice_r\<lparr>pingTargets := [example_target, other_target]\<rparr>"

definition with_targets :: state where
  "with_targets = \<lparr>users = [alice_t], sessions = [(''tok'', session_r)]\<rparr>"

definition net_down :: network where
  "net_down = (\<lambda>u t. (Rejected ''connect ECONNREFUSED'', 7))"

definition swept :: "User list" where
  "swept = [alice_r\<lparr>pingTargets :=
     [\<lparr>url = ''https://example.com'', lastPing = Some 5042, status = Some ''200 OK (42ms)''\<rparr>,
      \<lparr>url = ''http://other.test'', lastPing = Some 5084, status = Some ''200 OK (42ms)''\<rparr>]\<rparr>]"

definition sweep_events :: "event list" where
  "sweep_events =
     [Logged (StartingPingCycle 5000),
      Fetched ''https://example.com'',
      Logged (Pinged ''https://example.com'' ''alice'' ''200 OK (42ms)''),
      Fetched ''http://other.test'',
      Logged (Pinged ''http://other.test'' ''alice'' ''200 OK (42ms)''),
      Saved swept]"

definition swept_down :: "User list" where
  "swept_down = [alice_r\<lparr>pingTargets :=
     [\<lparr>url = ''https://example.com'', lastPing = Some 5007,
       status = Some ''Error: connect ECONNREFUSED (7ms)''\<rparr>,
      \<lparr>url = ''http://other.test'', lastPing = Some 5014,
       status = Some ''Error: connect ECONNREFUSED (7ms)''\<rparr>]\<rparr>]"

definition net_slow :: network where
  "net_slow = (\<lambda>u t. if t < 6000 then (Response 200 ''OK'', 4000) else (Response 200 ''OK'', 10))"

definition one_target :: state where
  "one_target = \<lparr>users = [alice_r\<lparr>pingTargets := [example_target]\<rparr>], sessions = []\<rparr>"

definition fresh_write :: target_write where
  "fresh_write = \<lparr>w_at = 6010, w_account = 0, w_target = 0, w_started = 6000,
                  w_lastPing = 6010, w_status = ''200 OK (10ms)''\<rparr>"

definition stale_write :: target_write where
  "stale_write = \<lparr>w_at = 7000, w_account = 0, w_target = 0, w_started = 3000,
                  w_lastPing = 7000, w_status = ''200 OK (4000ms)''\<rparr>"

definition quick_writes :: "target_write list" where
  "quick_writes =
     [\<lparr>w_at = 3042, w_account = 0, w_target = 0, w_started = 3000, w_lastPing = 3042,
       w_status = ''200 OK (42ms)''\<rparr>,
      \<lparr>w_at = 3084, w_account = 0, w_target = 1, w_started = 3042, w_lastPing = 3084,
       w_status = ''200 OK (42ms)''\<rparr>,
      \<lparr>w_at = 6042, w_account = 0, w_target = 0, w_started = 6000, w_lastPing = 6042,
       w_status = ''200 OK (42ms)''\<rparr>,
      \<lparr>w_at = 6084, w_account = 0, w_target = 1, w_started = 6042, w_lastPing = 6084,
       w_status = ''200 OK (42ms)''\<rparr>]"

section \<open>Lemmas on the session dictionary\<close>

lemma map_of_delete_key:
  "map_of (delete_key k ss) k' = (if k' = k then None else map_of ss k')"
  unfolding delete_key_def
  by (induction ss) auto

lemma map_of_prune_session:
  "map_of (prune_session us ss k) k' =
     (case map_of ss k' of
        None \<Rightarrow> None
      | Some s \<Rightarrow> if k' = k \<and> find (\<lambda>u. id_u u = userId s) us = None then None else Some s)"
  unfolding prune_session_def
  by (auto simp: map_of_delete_key split: option.splits)

lemma map_of_foldl_prune:
  "map_of (foldl (prune_session us) ss ks) k' =
     (case map_of ss k' of
        None \<Rightarrow> None
      | Some s \<Rightarrow> if k' \<in> set ks \<and> find (\<lambda>u. id_u u = userId s) us = None then None else Some s)"
proof (induction ks arbitrary: ss)
  case Nil
  show ?case by (simp split: option.splits)
next
  case (Cons k ks)
  show ?case
    by (simp add: Cons.IH map_of_prune_session split: option.splits)
qed

lemma map_of_prune_sessions:
  "map_of (prune_sessions us ss) k =
     (case map_of ss k of
        None \<Rightarrow> None
      | Some s \<Rightarrow> if find (\<lambda>u. id_u u = userId s) us = None then None else Some s)"
proof (cases "map_of ss k")
  case None
  then show ?thesis
    by (simp add: prune_sessions_def map_of_foldl_prune)
next
  case (Some s)
  then have "k \<in> set (object_keys ss)"
    by (auto simp: object_keys_def dest: map_of_SomeD intro: rev_image_eqI)
  with Some show ?thesis
    by (simp add: prune_sessions_def map_of_foldl_prune)
qed

lemma find_None_id: "(find (\<lambda>u. id_u u = i) us = None) = (i \<notin> id_u ` set us)"
  by (auto simp: find_None_iff)


section \<open>The reaper's threshold\<close>

lemma filter_same_length: "length (filter P xs) = length xs \<Longrightarrow> filter P xs = xs"
proof (induction xs)
  case Nil
  show ?case by simp
next
  case (Cons x xs)
  have le: "length (filter P xs) \<le> length xs" by simp
  show ?case
  proof (cases "P x")
    case True
    with Cons show ?thesis by simp
  next
    case False
    with Cons.prems le show ?thesis by simp
  qed
qed

lemma users_cleanup:
  "users (fst (cleanupInactiveAccounts now st)) = filter (keep_user now) (users st)"
  by (simp add: cleanupInactiveAccounts_def Let_def)

text \<open>
  What a tick removes: exactly the accounts whose last login (the epoch when it is missing)
  is at or before the cutoff.
\<close>

lemma cleanup_removed_iff:
  "u \<in> set (users st) \<Longrightarrow>
   (u \<notin> set (users (fst (cleanupInactiveAccounts now st)))) =
   ((case lastLogin u of Some t \<Rightarrow> t | None \<Rightarrow> 0) \<le> now - 172800000)"
  by (auto simp: users_cleanup keep_user_def lastLogin_date_def twoDaysAgo_def)

text \<open>
  Claim C1 says that a tick removes an account if and only if its last login is strictly
  older than \<open>now\<close> minus two days, so that an account whose last login is exactly at the
  cutoff stays; the comment over the function says the same (inactive accounts, older than
  two days). The filter keeps an account only when \<open>lastLogin > twoDaysAgo\<close>: with the clock
  at 172801000 the cutoff is 1000, which is the last login of \<open>alice\<close>, and the tick removes
  her, logs and saves the removal and prunes her session.
\<close>

theorem reaper_removes_at_cutoff:
  "twoDaysAgo 172801000 = 1000 \<and> lastLogin alice = Some 1000 \<and>
   cleanupInactiveAccounts 172801000 st0 =
     (\<lparr>users = [], sessions = []\<rparr>, [Logged (DeletedInactive 172801000 1), Saved []])"
  by (simp add: cleanupInactiveAccounts_def Let_def st0_def alice_def keep_user_def
      lastLogin_date_def twoDaysAgo_def prune_sessions_def object_keys_def prune_session_def
      session0_def delete_key_def)

section \<open>A tick that removes nothing\<close>

text \<open>
  Claim C8: when a reaper tick removes no account, it does nothing else: the state (accounts
  and sessions) is returned as it was and no event is emitted, neither a log line nor a save.
\<close>

theorem reaper_silent_without_removal:
  "length (users (fst (cleanupInactiveAccounts now st))) = length (users st) \<Longrightarrow>
   cleanupInactiveAccounts now st = (st, [])"
proof -
  assume "length (users (fst (cleanupInactiveAccounts now st))) = length (users st)"
  then have "filter (keep_user now) (users st) = users st"
    by (simp add: users_cleanup filter_same_length)
  then show ?thesis
    by (simp add: cleanupInactiveAccounts_def Let_def)
qed

theorem reaper_silent_without_removal_witness:
  "length (users (fst (cleanupInactiveAccounts 2000 st0))) = length (users st0) \<and>
   cleanupInactiveAccounts 2000 st0 = (st0, [])"
  using reaper_silent_without_removal [of 2000 st0]
  by (simp add: cleanupInactiveAccounts_def Let_def st0_def alice_def keep_user_def
      lastLogin_date_def twoDaysAgo_def)

section \<open>Every step keeps the sessions resolvable\<close>

lemma sessions_resolve_iff:
  "sessions_resolve st =
     (\<forall>k s. map_of (sessions st) k = Some s \<longrightarrow> userId s \<in> id_u ` set (users st))"
proof
  assume a: "sessions_resolve st"
  show "\<forall>k s. map_of (sessions st) k = Some s \<longrightarrow> userId s \<in> id_u ` set (users st)"
  proof (intro allI impI)
    fix k s
    assume m: "map_of (sessions st) k = Some s"
    then have "k \<in> set (object_keys (sessions st))"
      by (auto simp: object_keys_def dest: map_of_SomeD intro: rev_image_eqI)
    with a m have "find (\<lambda>u. id_u u = userId s) (users st) \<noteq> None"
      by (auto simp: sessions_resolve_def list_all_iff)
    then show "userId s \<in> id_u ` set (users st)"
      by (simp add: find_None_id)
  qed
next
  assume "\<forall>k s. map_of (sessions st) k = Some s \<longrightarrow> userId s \<in> id_u ` set (users st)"
  then show "sessions_resolve st"
    by (auto simp: sessions_resolve_def list_all_iff find_None_id split: option.splits)
qed

lemma map_of_set_key: "map_of (set_key k v ss) k' = (if k' = k then Some v else map_of ss k')"
  by (induction ss) auto

lemma ids_update_first:
  "(\<And>u. id_u (f u) = id_u u) \<Longrightarrow> map id_u (update_first P f us) = map id_u us"
  by (induction us) auto

lemma set_ids_update_first:
  "(\<And>u. id_u (f u) = id_u u) \<Longrightarrow> id_u ` set (update_first P f us) = id_u ` set us"
  using ids_update_first [of f P us] by (metis list.set_map)

lemma ids_ping_users: "map id_u (fst (ping_users net clock us)) = map id_u us"
proof (induction us arbitrary: clock)
  case Nil
  show ?case by simp
next
  case (Cons user rest)
  obtain targets' clock1 ev1 where
    t: "ping_targets net (log_pinged user) clock (pingTargets user) = (targets', clock1, ev1)"
    by (cases "ping_targets net (log_pinged user) clock (pingTargets user)") auto
  show ?case
    using Cons.IH [of clock1] by (cases "ping_users net clock1 rest") (simp add: t)
qed

lemma set_ids_ping_users: "id_u ` set (fst (ping_users net clock us)) = id_u ` set us"
  using ids_ping_users [of net clock us] by (metis list.set_map)

lemma users_isValidSession: "users (fst (isValidSession now st k)) = users st"
  by (simp add: isValidSession_def split: option.splits)

lemma sessions_isValidSession:
  "map_of (sessions (fst (isValidSession now st k))) k' = Some s \<Longrightarrow>
   map_of (sessions st) k' = Some s"
  by (auto simp: isValidSession_def map_of_delete_key split: option.splits if_splits)

lemma resolve_isValidSession:
  "sessions_resolve st \<Longrightarrow> sessions_resolve (fst (isValidSession now st k))"
  unfolding sessions_resolve_iff
  by (auto simp: users_isValidSession dest!: sessions_isValidSession)

lemma current_user_found:
  "snd (isValidSession now st k) = Some cu \<Longrightarrow>
   find (\<lambda>u. id_u u = id_u cu) (users (fst (isValidSession now st k))) = Some cu"
proof -
  assume a: "snd (isValidSession now st k) = Some cu"
  then obtain s :: Session where f: "find (\<lambda>u. id_u u = userId s) (users st) = Some cu"
    by (auto simp: isValidSession_def split: option.splits if_splits)
  then have "id_u cu = userId s"
    by (auto simp: find_Some_iff)
  with f show ?thesis
    by (simp add: users_isValidSession)
qed

lemma resolve_register:
  "sessions_resolve st \<Longrightarrow>
   sessions_resolve (fst (register_endpoint h uuid sid now uname pw st))"
  unfolding sessions_resolve_iff
  by (auto simp: register_endpoint_def Let_def map_of_set_key split: if_splits)

lemma resolve_login:
  "sessions_resolve st \<Longrightarrow>
   sessions_resolve (fst (login_endpoint h sid now uname pw st))"
  unfolding sessions_resolve_iff
  by (auto simp: login_endpoint_def Let_def map_of_set_key set_ids_update_first find_Some_iff
      split: if_splits option.splits)

lemma resolve_logout:
  "sessions_resolve st \<Longrightarrow> sessions_resolve (fst (logout_endpoint cookie st))"
  unfolding sessions_resolve_iff
  by (auto simp: logout_endpoint_def map_of_delete_key split: if_splits)

lemma resolve_write_targets:
  "sessions_resolve st \<Longrightarrow> sessions_resolve (fst (write_targets cu r st))"
  unfolding sessions_resolve_iff
  by (simp add: write_targets_def Let_def set_ids_update_first)

lemma resolve_ping_now:
  "sessions_resolve st \<Longrightarrow> sessions_resolve (fst (ping_now_endpoint net now cu st))"
  unfolding sessions_resolve_iff
  by (simp add: ping_now_endpoint_def Let_def set_ids_update_first split: prod.splits)

lemma resolve_server:
  "sessions_resolve st \<Longrightarrow>
   sessions_resolve (fst (server h net uuid sid now cookie req st))"
proof -
  assume a: "sessions_resolve st"
  define r where "r = (if falsy cookie then (st, None) else isValidSession now st (the cookie))"
  have b: "sessions_resolve (fst r)"
    using a by (simp add: r_def resolve_isValidSession)
  show ?thesis
    unfolding server_def r_def [symmetric]
    using b
    by (cases r; cases req)
      (auto simp: resolve_register resolve_login resolve_logout resolve_write_targets
        resolve_ping_now add_endpoint_def remove_endpoint_def split: option.splits)
qed

lemma resolve_sweep:
  "sessions_resolve st \<Longrightarrow> sessions_resolve (fst (pingAllUrls net clock st))"
  unfolding sessions_resolve_iff
  using set_ids_ping_users [of net clock "users st"]
  by (auto simp: pingAllUrls_def split: prod.splits)

lemma sessions_cleanup:
  "map_of (sessions (fst (cleanupInactiveAccounts now st))) k =
     (if length (filter (keep_user now) (users st)) < length (users st)
      then (case map_of (sessions st) k of
              None \<Rightarrow> None
            | Some s \<Rightarrow>
                if userId s \<in> id_u ` set (filter (keep_user now) (users st)) then Some s
                else None)
      else map_of (sessions st) k)"
  by (auto simp: cleanupInactiveAccounts_def Let_def map_of_prune_sessions find_None_id
      split: option.splits)

lemma resolve_cleanup:
  "sessions_resolve st \<Longrightarrow> sessions_resolve (fst (cleanupInactiveAccounts now st))"
proof (cases "length (filter (keep_user now) (users st)) < length (users st)")
  case True
  then show ?thesis
    unfolding sessions_resolve_iff
    by (auto simp: sessions_cleanup users_cleanup split: option.splits if_splits)
next
  case False
  then have "length (filter (keep_user now) (users st)) = length (users st)"
    using length_filter_le [of "keep_user now" "users st"] by simp
  then have "filter (keep_user now) (users st) = users st"
    by (rule filter_same_length)
  then have "fst (cleanupInactiveAccounts now st) = st"
    by (simp add: cleanupInactiveAccounts_def Let_def)
  moreover assume "sessions_resolve st"
  ultimately show ?thesis
    by simp
qed

lemma reachable_resolve: "reachable st \<Longrightarrow> sessions_resolve st"
proof (induction rule: reachable.induct)
  case (start loaded)
  show ?case by (simp add: sessions_resolve_def object_keys_def)
next
  case (request st hashPassword net uuid sessionId now cookie req)
  then show ?case by (simp add: resolve_server)
next
  case (reaper st now)
  then show ?case by (simp add: resolve_cleanup)
next
  case (sweep st net clock)
  then show ?case by (simp add: resolve_sweep)
qed

lemma registered_eq:
  "registered = \<lparr>users = [alice_r], sessions = [(''tok'', session_r)]\<rparr>"
  by (simp add: registered_def server_def falsy_def register_endpoint_def alice_r_def
      session_r_def session_lifetime_def Let_def)

lemma reachable_registered: "reachable registered"
  unfolding registered_def by (rule reachable.request) (rule reachable.start)

lemma cleanup_registered_late:
  "cleanupInactiveAccounts 200000000 registered =
     (\<lparr>users = [], sessions = []\<rparr>, [Logged (DeletedInactive 200000000 1), Saved []])"
  by (simp add: registered_eq cleanupInactiveAccounts_def Let_def alice_r_def keep_user_def
      lastLogin_date_def twoDaysAgo_def prune_sessions_def object_keys_def prune_session_def
      session_r_def delete_key_def)

lemma cleanup_registered_early:
  "cleanupInactiveAccounts 2000 registered = (registered, [])"
  by (simp add: registered_eq cleanupInactiveAccounts_def Let_def alice_r_def keep_user_def
      lastLogin_date_def twoDaysAgo_def)

text \<open>
  Claim C9: in every reachable state, after a reaper tick each session left in the dictionary
  names the id of an account that survived the tick; and when the tick removes an account
  (ids being unique), a session of that account is gone from the dictionary when the tick
  ends.
\<close>

theorem no_orphans:
  "reachable st \<Longrightarrow>
   (map_of (sessions (fst (cleanupInactiveAccounts now st))) k = Some s \<longrightarrow>
      (\<exists>u. u \<in> set (users (fst (cleanupInactiveAccounts now st))) \<and> id_u u = userId s)) \<and>
   (distinct (map id_u (users st)) \<and> x \<in> set (users st) \<and>
    x \<notin> set (users (fst (cleanupInactiveAccounts now st))) \<and>
    map_of (sessions st) k = Some s \<and> userId s = id_u x \<longrightarrow>
      map_of (sessions (fst (cleanupInactiveAccounts now st))) k = None)"
proof -
  assume r: "reachable st"
  let ?st' = "fst (cleanupInactiveAccounts now st)"
  have inv: "sessions_resolve ?st'"
    using r by (simp add: reachable_resolve resolve_cleanup)
  have first: "\<exists>u. u \<in> set (users ?st') \<and> id_u u = userId s"
    if "map_of (sessions ?st') k = Some s"
  proof -
    from inv that have "userId s \<in> id_u ` set (users ?st')"
      unfolding sessions_resolve_iff by blast
    then show ?thesis by auto
  qed
  have second: "map_of (sessions ?st') k = None"
    if d: "distinct (map id_u (users st))" and x: "x \<in> set (users st)"
      and gone: "x \<notin> set (users ?st')" and m: "map_of (sessions st) k = Some s"
      and own: "userId s = id_u x"
  proof -
    have less: "length (filter (keep_user now) (users st)) < length (users st)"
      using x gone length_filter_less [of x "users st" "keep_user now"]
      by (simp add: users_cleanup)
    have "userId s \<notin> id_u ` set (filter (keep_user now) (users st))"
    proof
      assume "userId s \<in> id_u ` set (filter (keep_user now) (users st))"
      then obtain u where u: "u \<in> set (users st)" "keep_user now u" "id_u u = id_u x"
        using own by auto
      from d have "inj_on id_u (set (users st))"
        by (simp add: distinct_map)
      with u x have "u = x" by (auto dest: inj_onD)
      with u gone x show False by (simp add: users_cleanup)
    qed
    with less m show ?thesis by (simp add: sessions_cleanup)
  qed
  from first second show ?thesis by blast
qed

theorem no_orphans_witness:
  "reachable registered \<and>
   map_of (sessions (fst (cleanupInactiveAccounts 2000 registered))) ''tok'' = Some session_r \<and>
   alice_r \<in> set (users (fst (cleanupInactiveAccounts 2000 registered))) \<and>
   id_u alice_r = userId session_r \<and>
   distinct (map id_u (users registered)) \<and> alice_r \<in> set (users registered) \<and>
   alice_r \<notin> set (users (fst (cleanupInactiveAccounts 200000000 registered))) \<and>
   map_of (sessions registered) ''tok'' = Some session_r \<and>
   map_of (sessions (fst (cleanupInactiveAccounts 200000000 registered))) ''tok'' = None"
  using no_orphans [OF reachable_registered, of 2000 "''tok''" session_r alice_r]
    no_orphans [OF reachable_registered, of 200000000 "''tok''" session_r alice_r]
    reachable_registered
  by (simp add: cleanup_registered_late cleanup_registered_early)
    (simp add: registered_eq alice_r_def session_r_def)

section \<open>Lazy expiry of sessions\<close>

text \<open>
  Claim C2 says that a session whose expiry is at or before \<open>now\<close> is deleted. The test is
  \<open>session.expires < new Date()\<close>: at \<open>expires = now\<close> the session is still valid, the
  entry stays and the account is returned.
\<close>

theorem validate_at_expiry_counterexample:
  "map_of (sessions st0) ''tok'' = Some session0 \<and> expires session0 \<le> 1000 \<and>
   isValidSession 1000 st0 ''tok'' = (st0, Some alice)"
  by (simp add: isValidSession_def st0_def session0_def alice_def)

text \<open>
  Claim C2, amended: \<open>isValidSession\<close> returns nothing for an absent token; for a token whose
  expiry is strictly before \<open>now\<close> it deletes the entry and returns nothing, and so does any
  later call on the same token; for a token whose expiry is at or after \<open>now\<close> it leaves the
  state as it is and returns the account whose id is the session's \<open>userId\<close>, or nothing when
  no account has that id.
\<close>

theorem validate_cases:
  "(map_of (sessions st) k = None \<longrightarrow>
      snd (isValidSession now st k) = None \<and>
      map_of (sessions (fst (isValidSession now st k))) = map_of (sessions st)) \<and>
   (map_of (sessions st) k = Some s \<and> expires s < now \<longrightarrow>
      snd (isValidSession now st k) = None \<and>
      map_of (sessions (fst (isValidSession now st k))) = (map_of (sessions st))(k := None) \<and>
      users (fst (isValidSession now st k)) = users st \<and>
      snd (isValidSession later (fst (isValidSession now st k)) k) = None) \<and>
   (map_of (sessions st) k = Some s \<and> now \<le> expires s \<longrightarrow>
      isValidSession now st k = (st, find (\<lambda>u. id_u u = userId s) (users st)))"
proof (intro conjI impI; (elim conjE)?)
  assume absent: "map_of (sessions st) k = None"
  show "snd (isValidSession now st k) = None"
    by (simp add: isValidSession_def absent)
  show "map_of (sessions (fst (isValidSession now st k))) = map_of (sessions st)"
    using absent by (auto simp: isValidSession_def map_of_delete_key)
next
  assume present: "map_of (sessions st) k = Some s" and expired: "expires s < now"
  have deleted: "fst (isValidSession now st k) = st\<lparr>sessions := delete_key k (sessions st)\<rparr>"
    by (simp add: isValidSession_def present expired)
  show "snd (isValidSession now st k) = None"
    by (simp add: isValidSession_def present expired)
  show "map_of (sessions (fst (isValidSession now st k))) = (map_of (sessions st))(k := None)"
    by (auto simp: deleted map_of_delete_key)
  show "users (fst (isValidSession now st k)) = users st"
    by (simp add: deleted)
  have "map_of (sessions (fst (isValidSession now st k))) k = None"
    by (simp add: deleted map_of_delete_key)
  then show "snd (isValidSession later (fst (isValidSession now st k)) k) = None"
    by (simp add: isValidSession_def)
next
  assume "map_of (sessions st) k = Some s" and "now \<le> expires s"
  then show "isValidSession now st k = (st, find (\<lambda>u. id_u u = userId s) (users st))"
    by (simp add: isValidSession_def)
qed

theorem validate_cases_witness:
  "map_of (sessions st0) ''none'' = None \<and> snd (isValidSession 500 st0 ''none'') = None \<and>
   map_of (sessions st0) ''tok'' = Some session0 \<and> expires session0 < 1001 \<and>
   snd (isValidSession 1001 st0 ''tok'') = None \<and>
   sessions (fst (isValidSession 1001 st0 ''tok'')) = [] \<and>
   snd (isValidSession 500 (fst (isValidSession 1001 st0 ''tok'')) ''tok'') = None \<and>
   1000 \<le> expires session0 \<and>
   isValidSession 1000 st0 ''tok'' = (st0, Some alice)"
  using validate_cases [where st = st0 and k = "''none''" and now = 500]
    validate_cases [where st = st0 and k = "''tok''" and s = session0 and now = 1001
      and later = 500]
    validate_cases [where st = st0 and k = "''tok''" and s = session0 and now = 1000]
  by (simp add: st0_def session0_def alice_def isValidSession_def delete_key_def)

section \<open>Target lists under add, remove and ping\<close>

lemma urls_ping_targets: "map url (fst (ping_targets net report clock ts)) = map url ts"
proof (induction ts arbitrary: clock)
  case Nil
  show ?case by simp
next
  case (Cons t ts)
  obtain result clock1 ev1 where p: "pingUrl net clock (url t) = (result, clock1, ev1)"
    by (cases "pingUrl net clock (url t)") auto
  show ?case
    using Cons.IH [of clock1] by (cases "ping_targets net report clock1 ts") (simp add: p)
qed

lemma find_url_None: "(find (\<lambda>target. url target = u) ts = None) = (u \<notin> url ` set ts)"
  by (auto simp: find_None_iff)

lemma addTarget_eq:
  "addTarget newUrl ts =
     (case newUrl of
        None \<Rightarrow> (ts, False)
      | Some u \<Rightarrow>
          if u \<noteq> [] \<and> (prefix ''http://'' u \<or> prefix ''https://'' u) \<and> u \<notin> url ` set ts
          then (ts @ [\<lparr>url = u, lastPing = None, status = Some neverPinged\<rparr>], True)
          else (ts, False))"
proof (cases newUrl)
  case None
  then show ?thesis by (simp add: addTarget_def)
next
  case (Some u)
  show ?thesis
  proof (cases "find (\<lambda>target. url target = u) ts")
    case None
    then have "u \<notin> url ` set ts" by (simp add: find_url_None)
    with None Some show ?thesis by (simp add: addTarget_def)
  next
    case (Some x)
    then have "find (\<lambda>target. url target = u) ts \<noteq> None" by simp
    then have "u \<in> url ` set ts" by (simp add: find_url_None)
    with Some \<open>newUrl = Some u\<close> show ?thesis by (simp add: addTarget_def)
  qed
qed

lemma distinct_addTarget:
  "distinct (map url ts) \<Longrightarrow> distinct (map url (fst (addTarget newUrl ts)))"
  by (auto simp: addTarget_eq split: option.splits)

lemma distinct_removeTarget:
  "distinct (map url ts) \<Longrightarrow> distinct (map url (fst (removeTarget urlToRemove ts)))"
  by (auto simp: removeTarget_def distinct_map_filter split: option.splits)

lemma distinct_apply_op: "distinct (map url ts) \<Longrightarrow> distinct (map url (apply_op ts op))"
  by (cases op) (simp_all add: distinct_addTarget distinct_removeTarget urls_ping_targets)

lemma distinct_foldl_ops:
  "distinct (map url ts) \<Longrightarrow> distinct (map url (foldl apply_op ts ops))"
  by (induction ops arbitrary: ts) (simp_all add: distinct_apply_op)

text \<open>No operation creates a target with the empty URL.\<close>

lemma nonempty_urls_foldl_ops: "[] \<notin> url ` set (foldl apply_op [] ops)"
proof -
  have step: "[] \<notin> url ` set ts \<Longrightarrow> [] \<notin> url ` set (apply_op ts op)" for ts op
  proof (cases op)
    case (AddOp newUrl)
    assume "[] \<notin> url ` set ts"
    with AddOp show ?thesis by (auto simp: addTarget_eq split: option.splits)
  next
    case (RemoveOp urlToRemove)
    assume "[] \<notin> url ` set ts"
    with RemoveOp show ?thesis by (auto simp: removeTarget_def split: option.splits)
  next
    case (PingOp net clock)
    assume "[] \<notin> url ` set ts"
    moreover have "url ` set (fst (ping_targets net (\<lambda>u s. []) clock ts)) = url ` set ts"
      using urls_ping_targets [of net "\<lambda>u s. []" clock ts] by (metis list.set_map)
    ultimately show ?thesis using PingOp by simp
  qed
  have "[] \<notin> url ` set ts \<Longrightarrow> [] \<notin> url ` set (foldl apply_op ts ops)" for ts
    by (induction ops arbitrary: ts) (simp_all add: step)
  then show ?thesis by simp
qed

lemma addTarget_again: "addTarget newUrl (fst (addTarget newUrl ts)) = (fst (addTarget newUrl ts), False)"
  by (auto simp: addTarget_eq split: option.splits)

lemma count_distinct:
  "distinct (map url ts) \<Longrightarrow> u \<in> url ` set ts \<Longrightarrow> length (filter (\<lambda>t. url t = u) ts) = 1"
  by (induction ts) (auto simp: filter_empty_conv intro: rev_image_eqI)

lemma url_added:
  "prefix ''http://'' u \<or> prefix ''https://'' u \<Longrightarrow> u \<in> url ` set (fst (addTarget (Some u) ts))"
  by (auto simp: addTarget_eq split: option.splits)

section \<open>The handlers write to the current account\<close>

lemma update_first_same:
  "find P us = Some cu \<Longrightarrow> f cu = cu \<Longrightarrow> update_first P f us = us"
  by (induction us) (auto split: if_splits)

lemma find_update_first:
  "find P us = Some cu \<Longrightarrow> P (f cu) \<Longrightarrow> find P (update_first P f us) = Some (f cu)"
  by (induction us) (auto split: if_splits)

lemma valid_session_state:
  "snd (isValidSession now st k) = Some cu \<Longrightarrow> fst (isValidSession now st k) = st"
  by (auto simp: isValidSession_def split: option.splits if_splits)

lemma server_targets:
  assumes "snd (isValidSession now st k) = Some cu" and "k \<noteq> []"
  shows "server h net uuid sid now (Some k) (Add newUrl) st =
           write_targets cu (addTarget newUrl (pingTargets cu)) st"
    and "server h net uuid sid now (Some k) (Remove urlToRemove) st =
           write_targets cu (removeTarget urlToRemove (pingTargets cu)) st"
  using assms valid_session_state [OF assms(1)]
  by (cases "isValidSession now st k";
      simp add: server_def falsy_def add_endpoint_def remove_endpoint_def)+

lemma current_user_in_state:
  assumes "snd (isValidSession now st k) = Some cu"
  shows "find (\<lambda>u. id_u u = id_u cu) (users st) = Some cu"
  using current_user_found [OF assms] valid_session_state [OF assms] by simp

lemma write_targets_unchanged:
  "find (\<lambda>u. id_u u = id_u cu) (users st) = Some cu \<Longrightarrow>
   write_targets cu (pingTargets cu, False) st = (st, [], Found ''/'' None)"
  by (simp add: write_targets_def update_first_same)

lemma write_targets_account:
  "find (\<lambda>u. id_u u = id_u cu) (users st) = Some cu \<Longrightarrow>
   find (\<lambda>u. id_u u = id_u cu) (users (fst (write_targets cu r st))) =
     Some (cu\<lparr>pingTargets := fst r\<rparr>)"
  by (simp add: write_targets_def Let_def find_update_first)

lemma sessions_write_targets: "sessions (fst (write_targets cu r st)) = sessions st"
  by (simp add: write_targets_def Let_def)

lemma session_of_valid:
  "snd (isValidSession now st k) = Some cu \<Longrightarrow>
   \<exists>s. map_of (sessions st) k = Some s \<and> find (\<lambda>u. id_u u = userId s) (users st) = Some cu"
  by (auto simp: isValidSession_def split: option.splits if_splits)

lemma add_twice_in_store:
  assumes k: "k \<noteq> []"
    and v: "snd (isValidSession now st k) = Some cu"
    and u: "prefix ''http://'' u \<or> prefix ''https://'' u"
    and d: "distinct (map url (pingTargets cu))"
    and v1: "snd (isValidSession later
               (fst (server hashPassword net uuid sessionId now (Some k) (Add (Some u)) st)) k) =
             Some cu1"
  shows "find (\<lambda>x. id_u x = id_u cu)
           (users (fst (server hashPassword net uuid sessionId now (Some k) (Add (Some u)) st))) =
           Some cu1 \<and>
         pingTargets cu1 = fst (addTarget (Some u) (pingTargets cu)) \<and>
         length (filter (\<lambda>t. url t = u) (pingTargets cu1)) = 1 \<and>
         server hashPassword' net' uuid' sessionId' later (Some k) (Add (Some u))
           (fst (server hashPassword net uuid sessionId now (Some k) (Add (Some u)) st)) =
           (fst (server hashPassword net uuid sessionId now (Some k) (Add (Some u)) st), [],
            Found ''/'' None)"
proof -
  let ?r = "addTarget (Some u) (pingTargets cu)"
  let ?st1 = "fst (server hashPassword net uuid sessionId now (Some k) (Add (Some u)) st)"
  have st1: "?st1 = fst (write_targets cu ?r st)"
    using server_targets(1) [OF v k] by simp
  have cur: "find (\<lambda>x. id_u x = id_u cu) (users st) = Some cu"
    using v by (rule current_user_in_state)
  obtain s where s: "map_of (sessions st) k = Some s"
    and fs: "find (\<lambda>x. id_u x = userId s) (users st) = Some cu"
    using session_of_valid [OF v] by blast
  from fs have own: "userId s = id_u cu"
    by (auto simp: find_Some_iff)
  obtain s1 where s1: "map_of (sessions ?st1) k = Some s1"
    and fs1: "find (\<lambda>x. id_u x = userId s1) (users ?st1) = Some cu1"
    using session_of_valid [OF v1] by blast
  have "s1 = s"
    using s s1 by (simp add: st1 sessions_write_targets)
  with fs1 own have found: "find (\<lambda>x. id_u x = id_u cu) (users ?st1) = Some cu1"
    by simp
  have "find (\<lambda>x. id_u x = id_u cu) (users ?st1) = Some (cu\<lparr>pingTargets := fst ?r\<rparr>)"
    unfolding st1 using cur by (rule write_targets_account)
  with found have cu1: "cu1 = cu\<lparr>pingTargets := fst ?r\<rparr>"
    by simp
  have targets: "pingTargets cu1 = fst ?r"
    by (simp add: cu1)
  have one: "length (filter (\<lambda>t. url t = u) (pingTargets cu1)) = 1"
    unfolding targets using d u by (intro count_distinct distinct_addTarget url_added)
  have again: "addTarget (Some u) (pingTargets cu1) = (pingTargets cu1, False)"
    unfolding targets by (rule addTarget_again)
  have "server hashPassword' net' uuid' sessionId' later (Some k) (Add (Some u)) ?st1 =
      write_targets cu1 (addTarget (Some u) (pingTargets cu1)) ?st1"
    using server_targets(1) [OF v1 k] by simp
  also have "\<dots> = (?st1, [], Found ''/'' None)"
    unfolding again using current_user_in_state [OF v1] by (rule write_targets_unchanged)
  finally show ?thesis
    using targets one found by simp
qed

section \<open>Adding a target twice\<close>

text \<open>
  Claim C6: a second \<open>addTarget\<close> with the same field value changes nothing and saves nothing;
  the target list of an account, built from the empty list of its registration by any
  sequence of adds, removes and pings, never holds a URL twice; an add keeps the URLs
  distinct; after two adds of a URL that starts with \<open>http://\<close> or \<open>https://\<close> exactly
  one target has that URL; the match is exact: such a URL that differs from every
  URL of the list, be it only in the case of a letter, is appended as a new target; and
  in the store: after a logged-in account with distinct URLs has sent \<open>/add\<close> with such a
  URL, the account found in \<open>users\<close> holds exactly one target with it, and a second \<open>/add\<close>
  of the same URL in the same session leaves the whole state as it is, saves nothing and
  answers with the redirect.
\<close>

theorem add_idempotent:
  "addTarget newUrl (fst (addTarget newUrl ts)) = (fst (addTarget newUrl ts), False) \<and>
   distinct (map url (foldl apply_op [] ops)) \<and>
   (distinct (map url ts) \<longrightarrow> distinct (map url (fst (addTarget newUrl ts)))) \<and>
   (distinct (map url ts) \<and> (prefix ''http://'' u \<or> prefix ''https://'' u) \<longrightarrow>
      length (filter (\<lambda>t. url t = u)
        (fst (addTarget (Some u) (fst (addTarget (Some u) ts))))) = 1) \<and>
   ((prefix ''http://'' v \<or> prefix ''https://'' v) \<and> v \<notin> url ` set ts \<longrightarrow>
      addTarget (Some v) ts =
        (ts @ [\<lparr>url = v, lastPing = None, status = Some neverPinged\<rparr>], True)) \<and>
   (k \<noteq> [] \<and> snd (isValidSession now st k) = Some cu \<and>
    (prefix ''http://'' u \<or> prefix ''https://'' u) \<and> distinct (map url (pingTargets cu)) \<and>
    snd (isValidSession later
      (fst (server hashPassword net uuid sessionId now (Some k) (Add (Some u)) st)) k) =
      Some cu' \<longrightarrow>
      find (\<lambda>x. id_u x = id_u cu)
        (users (fst (server hashPassword net uuid sessionId now (Some k) (Add (Some u)) st))) =
        Some cu' \<and>
      pingTargets cu' = fst (addTarget (Some u) (pingTargets cu)) \<and>
      length (filter (\<lambda>t. url t = u) (pingTargets cu')) = 1 \<and>
      server hashPassword' net' uuid' sessionId' later (Some k) (Add (Some u))
        (fst (server hashPassword net uuid sessionId now (Some k) (Add (Some u)) st)) =
        (fst (server hashPassword net uuid sessionId now (Some k) (Add (Some u)) st), [],
         Found ''/'' None))"
proof -
  have once: "length (filter (\<lambda>t. url t = u)
        (fst (addTarget (Some u) (fst (addTarget (Some u) ts))))) = 1"
    if "distinct (map url ts)" and "prefix ''http://'' u \<or> prefix ''https://'' u"
    using that by (simp add: addTarget_again count_distinct distinct_addTarget url_added)
  have built: "distinct (map url (foldl apply_op [] ops))"
    by (rule distinct_foldl_ops) simp
  have fresh: "addTarget (Some v) ts =
        (ts @ [\<lparr>url = v, lastPing = None, status = Some neverPinged\<rparr>], True)"
    if "prefix ''http://'' v \<or> prefix ''https://'' v" and "v \<notin> url ` set ts"
    using that by (auto simp: addTarget_eq)
  have stored: "find (\<lambda>x. id_u x = id_u cu)
        (users (fst (server hashPassword net uuid sessionId now (Some k) (Add (Some u)) st))) =
        Some cu' \<and>
      pingTargets cu' = fst (addTarget (Some u) (pingTargets cu)) \<and>
      length (filter (\<lambda>t. url t = u) (pingTargets cu')) = 1 \<and>
      server hashPassword' net' uuid' sessionId' later (Some k) (Add (Some u))
        (fst (server hashPassword net uuid sessionId now (Some k) (Add (Some u)) st)) =
        (fst (server hashPassword net uuid sessionId now (Some k) (Add (Some u)) st), [],
         Found ''/'' None)"
    if "k \<noteq> []" and "snd (isValidSession now st k) = Some cu"
      and "prefix ''http://'' u \<or> prefix ''https://'' u"
      and "distinct (map url (pingTargets cu))"
      and "snd (isValidSession later
        (fst (server hashPassword net uuid sessionId now (Some k) (Add (Some u)) st)) k) =
        Some cu'"
    using that by (rule add_twice_in_store)
  show ?thesis
  proof (intro conjI)
    show "addTarget newUrl (fst (addTarget newUrl ts)) = (fst (addTarget newUrl ts), False)"
      by (rule addTarget_again)
    show "distinct (map url (foldl apply_op [] ops))"
      by (rule built)
    show "distinct (map url ts) \<longrightarrow> distinct (map url (fst (addTarget newUrl ts)))"
      by (simp add: distinct_addTarget)
    show "distinct (map url ts) \<and> (prefix ''http://'' u \<or> prefix ''https://'' u) \<longrightarrow>
        length (filter (\<lambda>t. url t = u)
          (fst (addTarget (Some u) (fst (addTarget (Some u) ts))))) = 1"
      using once by blast
    show "(prefix ''http://'' v \<or> prefix ''https://'' v) \<and> v \<notin> url ` set ts \<longrightarrow>
        addTarget (Some v) ts =
          (ts @ [\<lparr>url = v, lastPing = None, status = Some neverPinged\<rparr>], True)"
      using fresh by blast
    show "k \<noteq> [] \<and> snd (isValidSession now st k) = Some cu \<and>
        (prefix ''http://'' u \<or> prefix ''https://'' u) \<and> distinct (map url (pingTargets cu)) \<and>
        snd (isValidSession later
          (fst (server hashPassword net uuid sessionId now (Some k) (Add (Some u)) st)) k) =
          Some cu' \<longrightarrow>
        find (\<lambda>x. id_u x = id_u cu)
          (users (fst (server hashPassword net uuid sessionId now (Some k) (Add (Some u)) st))) =
          Some cu' \<and>
        pingTargets cu' = fst (addTarget (Some u) (pingTargets cu)) \<and>
        length (filter (\<lambda>t. url t = u) (pingTargets cu')) = 1 \<and>
        server hashPassword' net' uuid' sessionId' later (Some k) (Add (Some u))
          (fst (server hashPassword net uuid sessionId now (Some k) (Add (Some u)) st)) =
          (fst (server hashPassword net uuid sessionId now (Some k) (Add (Some u)) st), [],
           Found ''/'' None)"
      using stored by blast
  qed
qed

theorem add_idempotent_witness:
  "distinct (map url []) \<and> prefix ''https://'' ''https://example.com'' \<and>
   fst (addTarget (Some ''https://example.com'') []) = [example_target] \<and>
   addTarget (Some ''https://example.com'') [example_target] = ([example_target], False) \<and>
   length (filter (\<lambda>t. url t = ''https://example.com'')
     (fst (addTarget (Some ''https://example.com'')
        (fst (addTarget (Some ''https://example.com'') []))))) = 1 \<and>
   prefix ''https://'' ''https://Example.com'' \<and>
   ''https://Example.com'' \<notin> url ` set [example_target] \<and>
   addTarget (Some ''https://Example.com'') [example_target] =
     ([example_target,
       \<lparr>url = ''https://Example.com'', lastPing = None, status = Some neverPinged\<rparr>], True) \<and>
   ''tok'' \<noteq> [] \<and> snd (isValidSession 2000 registered ''tok'') = Some alice_r \<and>
   distinct (map url (pingTargets alice_r)) \<and>
   server (\<lambda>p. p) net0 ''u2'' ''tok2'' 2000 (Some ''tok'') (Add (Some ''https://example.com''))
     registered =
     (one_target\<lparr>sessions := [(''tok'', session_r)]\<rparr>,
      [Saved (users one_target)], Found ''/'' None) \<and>
   snd (isValidSession 3000 (one_target\<lparr>sessions := [(''tok'', session_r)]\<rparr>) ''tok'') =
     Some (alice_r\<lparr>pingTargets := [example_target]\<rparr>) \<and>
   length (filter (\<lambda>t. url t = ''https://example.com'')
     (pingTargets (alice_r\<lparr>pingTargets := [example_target]\<rparr>))) = 1 \<and>
   server (\<lambda>p. p) net0 ''u3'' ''tok3'' 3000 (Some ''tok'') (Add (Some ''https://example.com''))
     (one_target\<lparr>sessions := [(''tok'', session_r)]\<rparr>) =
     (one_target\<lparr>sessions := [(''tok'', session_r)]\<rparr>, [], Found ''/'' None)"
proof -
  have first: "server (\<lambda>p. p) net0 ''u2'' ''tok2'' 2000 (Some ''tok'')
      (Add (Some ''https://example.com'')) registered =
      (one_target\<lparr>sessions := [(''tok'', session_r)]\<rparr>,
       [Saved (users one_target)], Found ''/'' None)"
    by (simp add: registered_eq server_def falsy_def isValidSession_def session_r_def
        alice_r_def add_endpoint_def addTarget_def write_targets_def Let_def one_target_def
        example_target_def)
  have again: "snd (isValidSession 3000 (one_target\<lparr>sessions := [(''tok'', session_r)]\<rparr>)
      ''tok'') = Some (alice_r\<lparr>pingTargets := [example_target]\<rparr>)"
    by (simp add: isValidSession_def one_target_def session_r_def alice_r_def)
  have valid: "snd (isValidSession 2000 registered ''tok'') = Some alice_r"
    by (simp add: registered_eq isValidSession_def session_r_def alice_r_def)
  show ?thesis
    using add_idempotent [where ts = "[]" and u = "''https://example.com''"
        and newUrl = "Some ''https://example.com''" and ops = "[]"]
      add_idempotent [where ts = "[example_target]" and v = "''https://Example.com''"]
      add_idempotent [where k = "''tok''" and now = 2000 and st = registered and cu = alice_r
        and u = "''https://example.com''" and later = 3000
        and cu' = "alice_r\<lparr>pingTargets := [example_target]\<rparr>"
        and hashPassword = "\<lambda>p. p" and net = net0 and uuid = "''u2''"
        and sessionId = "''tok2''" and hashPassword' = "\<lambda>p. p" and net' = net0
        and uuid' = "''u3''" and sessionId' = "''tok3''"]
      first again valid
    by (simp add: addTarget_def example_target_def alice_r_def)
qed

section \<open>A URL that is not http or https\<close>

text \<open>
  Claim C7 says that the result of adding such a URL is \<open>InvalidUrl\<close>. The handler reports
  nothing of the kind: the response to \<open>ftp://bad\<close> is the redirect to \<open>/\<close> that an accepted
  URL gets.
\<close>

theorem invalid_url_same_response_counterexample:
  "server (\<lambda>p. p) net0 ''u2'' ''tok2'' 2000 (Some ''tok'') (Add (Some ''ftp://bad'')) registered =
     (registered, [], Found ''/'' None) \<and>
   snd (snd (server (\<lambda>p. p) net0 ''u2'' ''tok2'' 2000 (Some ''tok'')
     (Add (Some ''https://example.com'')) registered)) = Found ''/'' None"
  by (simp add: registered_eq server_def falsy_def isValidSession_def session_r_def alice_r_def
      add_endpoint_def addTarget_def write_targets_def Let_def)

text \<open>
  Claim C7, amended: for a URL that starts with neither \<open>http://\<close> nor \<open>https://\<close>,
  \<open>addTarget\<close> creates no target and saves nothing, and the \<open>/add\<close> request of a logged-in
  account leaves the whole state unchanged, emits no event and answers with the same redirect
  to \<open>/\<close> as for an accepted URL.
\<close>

theorem invalid_url_ignored:
  "\<not> prefix ''http://'' u \<and> \<not> prefix ''https://'' u \<longrightarrow>
     addTarget (Some u) ts = (ts, False) \<and>
     (k \<noteq> [] \<and> snd (isValidSession now st k) = Some cu \<longrightarrow>
        server hashPassword net uuid sessionId now (Some k) (Add (Some u)) st =
          (st, [], Found ''/'' None))"
proof (intro impI conjI; elim conjE)
  assume u: "\<not> prefix ''http://'' u" "\<not> prefix ''https://'' u"
  show a: "addTarget (Some u) ts = (ts, False)" for ts
    using u by (simp add: addTarget_def)
  assume k: "k \<noteq> []" and v: "snd (isValidSession now st k) = Some cu"
  show "server hashPassword net uuid sessionId now (Some k) (Add (Some u)) st =
          (st, [], Found ''/'' None)"
    using server_targets(1) [OF v k] current_user_in_state [OF v]
    by (simp add: a write_targets_unchanged)
qed

theorem invalid_url_ignored_witness:
  "\<not> prefix ''http://'' ''ftp://bad'' \<and> \<not> prefix ''https://'' ''ftp://bad'' \<and>
   addTarget (Some ''ftp://bad'') [example_target] = ([example_target], False) \<and>
   ''tok'' \<noteq> [] \<and> snd (isValidSession 2000 registered ''tok'') = Some alice_r \<and>
   server (\<lambda>p. p) net0 ''u2'' ''tok2'' 2000 (Some ''tok'') (Add (Some ''ftp://bad'')) registered =
     (registered, [], Found ''/'' None)"
  using invalid_url_ignored [where u = "''ftp://bad''" and ts = "[example_target]"
      and k = "''tok''" and now = 2000 and st = registered and cu = alice_r
      and hashPassword = "\<lambda>p. p" and net = net0 and uuid = "''u2''" and sessionId = "''tok2''"]
  by (simp add: registered_eq isValidSession_def session_r_def alice_r_def)

lemma removeTarget_filter:
  "u \<noteq> [] \<or> [] \<notin> url ` set ts \<Longrightarrow>
   fst (removeTarget (Some u) ts) = filter (\<lambda>target. url target \<noteq> u) ts"
proof (cases "u = []")
  case False
  then show ?thesis by (simp add: removeTarget_def)
next
  case True
  assume "u \<noteq> [] \<or> [] \<notin> url ` set ts"
  with True have "filter (\<lambda>target. url target \<noteq> u) ts = ts"
    by (auto simp: filter_id_conv intro: rev_image_eqI)
  with True show ?thesis by (simp add: removeTarget_def)
qed

section \<open>Removing a target\<close>

text \<open>
  Claim C10: for a non-empty \<open>u\<close>, and for every \<open>u\<close> on a target list without the empty
  URL (no operation creates one), \<open>removeTarget\<close> with URL \<open>u\<close> leaves exactly the targets whose URL differs from \<open>u\<close>, in
  their order; no target with URL \<open>u\<close> is left; when no target had that URL the list is
  unchanged; and the \<open>/remove\<close> request of a logged-in account answers with the redirect and
  stores the filtered list in that account.
\<close>

theorem remove_filters:
  "u \<noteq> [] \<or> [] \<notin> url ` set ts \<longrightarrow>
     fst (removeTarget (Some u) ts) = filter (\<lambda>target. url target \<noteq> u) ts \<and>
     u \<notin> url ` set (fst (removeTarget (Some u) ts)) \<and>
     (u \<notin> url ` set ts \<longrightarrow> fst (removeTarget (Some u) ts) = ts) \<and>
     (k \<noteq> [] \<and> snd (isValidSession now st k) = Some cu \<and> pingTargets cu = ts \<longrightarrow>
        snd (snd (server hashPassword net uuid sessionId now (Some k) (Remove (Some u)) st)) =
          Found ''/'' None \<and>
        find (\<lambda>x. id_u x = id_u cu)
          (users (fst (server hashPassword net uuid sessionId now (Some k) (Remove (Some u)) st))) =
          Some (cu\<lparr>pingTargets := filter (\<lambda>target. url target \<noteq> u) ts\<rparr>))"
proof (intro impI)
  assume e: "u \<noteq> [] \<or> [] \<notin> url ` set ts"
  have f: "fst (removeTarget (Some u) ts) = filter (\<lambda>target. url target \<noteq> u) ts"
    using e by (rule removeTarget_filter)
  have g: "u \<notin> url ` set (fst (removeTarget (Some u) ts))"
    by (auto simp: f)
  have h: "fst (removeTarget (Some u) ts) = ts" if "u \<notin> url ` set ts"
    using that by (auto simp: f filter_id_conv)
  have s: "snd (snd (server hashPassword net uuid sessionId now (Some k) (Remove (Some u)) st)) =
          Found ''/'' None \<and>
        find (\<lambda>x. id_u x = id_u cu)
          (users (fst (server hashPassword net uuid sessionId now (Some k) (Remove (Some u)) st))) =
          Some (cu\<lparr>pingTargets := filter (\<lambda>target. url target \<noteq> u) ts\<rparr>)"
    if k: "k \<noteq> []" and v: "snd (isValidSession now st k) = Some cu" and t: "pingTargets cu = ts"
  proof -
    have w: "server hashPassword net uuid sessionId now (Some k) (Remove (Some u)) st =
        write_targets cu (removeTarget (Some u) ts) st"
      using server_targets(2) [OF v k] t by simp
    have "snd (snd (write_targets cu (removeTarget (Some u) ts) st)) = Found ''/'' None"
      by (simp add: write_targets_def Let_def)
    moreover have "find (\<lambda>x. id_u x = id_u cu)
        (users (fst (write_targets cu (removeTarget (Some u) ts) st))) =
        Some (cu\<lparr>pingTargets := filter (\<lambda>target. url target \<noteq> u) ts\<rparr>)"
      using write_targets_account [OF current_user_in_state [OF v], of "removeTarget (Some u) ts"] f
      by simp
    ultimately show ?thesis by (simp add: w)
  qed
  from f g h s show "fst (removeTarget (Some u) ts) = filter (\<lambda>target. url target \<noteq> u) ts \<and>
     u \<notin> url ` set (fst (removeTarget (Some u) ts)) \<and>
     (u \<notin> url ` set ts \<longrightarrow> fst (removeTarget (Some u) ts) = ts) \<and>
     (k \<noteq> [] \<and> snd (isValidSession now st k) = Some cu \<and> pingTargets cu = ts \<longrightarrow>
        snd (snd (server hashPassword net uuid sessionId now (Some k) (Remove (Some u)) st)) =
          Found ''/'' None \<and>
        find (\<lambda>x. id_u x = id_u cu)
          (users (fst (server hashPassword net uuid sessionId now (Some k) (Remove (Some u)) st))) =
          Some (cu\<lparr>pingTargets := filter (\<lambda>target. url target \<noteq> u) ts\<rparr>))"
    by blast
qed

theorem remove_filters_witness:
  "''https://example.com'' \<noteq> [] \<and> [] \<notin> url ` set [example_target, other_target] \<and>
   fst (removeTarget (Some ''https://example.com'') [example_target, other_target]) = [other_target] \<and>
   ''http://absent.test'' \<notin> url ` set [example_target, other_target] \<and>
   fst (removeTarget (Some ''http://absent.test'') [example_target, other_target]) =
     [example_target, other_target] \<and>
   fst (removeTarget (Some []) [example_target, other_target]) =
     [example_target, other_target] \<and>
   ''tok'' \<noteq> [] \<and> snd (isValidSession 2000 with_targets ''tok'') = Some alice_t \<and>
   pingTargets alice_t = [example_target, other_target] \<and>
   server (\<lambda>p. p) net0 ''u2'' ''tok2'' 2000 (Some ''tok'') (Remove (Some ''https://example.com''))
     with_targets =
     (\<lparr>users = [alice_r\<lparr>pingTargets := [other_target]\<rparr>], sessions = [(''tok'', session_r)]\<rparr>,
      [Saved [alice_r\<lparr>pingTargets := [other_target]\<rparr>]], Found ''/'' None)"
  using remove_filters [where ts = "[example_target, other_target]"
      and u = "''https://example.com''" and k = "''tok''" and now = 2000 and st = with_targets
      and cu = alice_t and hashPassword = "\<lambda>p. p" and net = net0 and uuid = "''u2''"
      and sessionId = "''tok2''"]
    remove_filters [where ts = "[example_target, other_target]" and u = "''http://absent.test''"]
    remove_filters [where ts = "[example_target, other_target]" and u = "[]"]
  by (simp add: removeTarget_def example_target_def other_target_def with_targets_def
      alice_t_def alice_r_def session_r_def isValidSession_def server_def falsy_def
      remove_endpoint_def write_targets_def Let_def)

section \<open>One sweep tick\<close>

lemma fetched_append: "fetched (ev1 @ ev2) = fetched ev1 @ fetched ev2"
  by (induction ev1 rule: fetched.induct) simp_all

lemma saves_append: "saves (ev1 @ ev2) = saves ev1 @ saves ev2"
  by (induction ev1 rule: saves.induct) simp_all

lemma pingUrl_shape:
  "\<exists>result. pingUrl net clock u = (result, clock + int (snd (net u clock)), [Fetched u])"
  by (simp add: pingUrl_def Let_def split: fetch_result.splits)

lemma ping_targets_Cons:
  "ping_targets net report clock (t # ts) =
     (let result = fst (pingUrl net clock (url t));
          clock1 = clock + int (snd (net (url t) clock));
          r = ping_targets net report clock1 ts
      in (t\<lparr>lastPing := Some clock1, status := Some (format_status result)\<rparr> # fst r,
          fst (snd r),
          Fetched (url t) # report (url t) (format_status result) @ snd (snd r)))"
proof -
  obtain result where "pingUrl net clock (url t) = (result, clock + int (snd (net (url t) clock)), [Fetched (url t)])"
    using pingUrl_shape by blast
  then show ?thesis
    by (simp add: Let_def split: prod.splits)
qed

lemma clock_ping_targets: "clock \<le> fst (snd (ping_targets net report clock ts))"
proof (induction ts arbitrary: clock)
  case Nil
  show ?case by simp
next
  case (Cons t ts)
  have "clock + int (snd (net (url t) clock))
      \<le> fst (snd (ping_targets net report (clock + int (snd (net (url t) clock))) ts))"
    by (rule Cons.IH)
  then show ?case
    by (simp add: ping_targets_Cons Let_def del: ping_targets.simps)
qed

lemma probed_mono: "c \<le> c' \<Longrightarrow> probed net c' t \<Longrightarrow> probed net c t"
  unfolding probed_def by (meson order_trans)

lemma probed_ping_targets:
  "t' \<in> set (fst (ping_targets net report clock ts)) \<Longrightarrow> probed net clock t'"
proof (induction ts arbitrary: clock)
  case Nil
  then show ?case by simp
next
  case (Cons t ts)
  let ?c1 = "clock + int (snd (net (url t) clock))"
  let ?r = "fst (pingUrl net clock (url t))"
  from Cons.prems consider
      (head) "t' = t\<lparr>lastPing := Some ?c1, status := Some (format_status ?r)\<rparr>"
    | (tail) "t' \<in> set (fst (ping_targets net report ?c1 ts))"
    by (auto simp: ping_targets_Cons Let_def simp del: ping_targets.simps)
  then show ?case
  proof cases
    case head
    have p: "pingUrl net clock (url t) = (?r, ?c1, [Fetched (url t)])"
      using pingUrl_shape [of net clock "url t"] by auto
    show ?thesis
      unfolding probed_def
      apply (rule exI [of _ clock], rule exI [of _ ?r], rule exI [of _ ?c1])
      using p by (simp add: head format_status_def)
  next
    case tail
    then have "probed net ?c1 t'" by (rule Cons.IH)
    then show ?thesis by (rule probed_mono [rotated]) simp
  qed
qed

lemma fetched_ping_targets:
  "(\<And>u s. fetched (report u s) = []) \<Longrightarrow>
   fetched (snd (snd (ping_targets net report clock ts))) = map url ts"
proof (induction ts arbitrary: clock)
  case Nil
  show ?case by simp
next
  case (Cons t ts)
  then show ?case
    by (simp add: ping_targets_Cons Let_def fetched_append del: ping_targets.simps)
qed

lemma saves_ping_targets:
  "(\<And>u s. saves (report u s) = []) \<Longrightarrow>
   saves (snd (snd (ping_targets net report clock ts))) = []"
proof (induction ts arbitrary: clock)
  case Nil
  show ?case by simp
next
  case (Cons t ts)
  then show ?case
    by (simp add: ping_targets_Cons Let_def saves_append del: ping_targets.simps)
qed

lemma ping_users_Cons:
  "ping_users net clock (user # rest) =
     (let r1 = ping_targets net (log_pinged user) clock (pingTargets user);
          r2 = ping_users net (fst (snd r1)) rest
      in (user\<lparr>pingTargets := fst r1\<rparr> # fst r2, fst (snd r2), snd (snd r1) @ snd (snd r2)))"
  by (simp add: Let_def split: prod.splits)

lemma clock_ping_users: "clock \<le> fst (snd (ping_users net clock us))"
proof (induction us arbitrary: clock)
  case Nil
  show ?case by simp
next
  case (Cons user rest)
  have "clock \<le> fst (snd (ping_targets net (log_pinged user) clock (pingTargets user)))"
    by (rule clock_ping_targets)
  also have "\<dots> \<le> fst (snd (ping_users net \<dots> rest))"
    by (rule Cons.IH)
  finally show ?case
    by (simp add: ping_users_Cons Let_def del: ping_users.simps)
qed

lemma probed_ping_users:
  "user' \<in> set (fst (ping_users net clock us)) \<Longrightarrow> t \<in> set (pingTargets user') \<Longrightarrow>
   probed net clock t"
proof (induction us arbitrary: clock)
  case Nil
  then show ?case by simp
next
  case (Cons user rest)
  let ?r1 = "ping_targets net (log_pinged user) clock (pingTargets user)"
  from Cons.prems(1) consider
      (head) "user' = user\<lparr>pingTargets := fst ?r1\<rparr>"
    | (tail) "user' \<in> set (fst (ping_users net (fst (snd ?r1)) rest))"
    by (auto simp: ping_users_Cons Let_def simp del: ping_users.simps)
  then show ?case
  proof cases
    case head
    with Cons.prems(2) show ?thesis by (simp add: probed_ping_targets)
  next
    case tail
    then have "probed net (fst (snd ?r1)) t"
      using Cons.prems(2) by (rule Cons.IH)
    then show ?thesis
      by (rule probed_mono [rotated]) (rule clock_ping_targets)
  qed
qed

lemma fetched_ping_users: "fetched (snd (snd (ping_users net clock us))) = all_urls us"
proof (induction us arbitrary: clock)
  case Nil
  show ?case by (simp add: all_urls_def)
next
  case (Cons user rest)
  have "fetched (snd (snd (ping_targets net (log_pinged user) clock (pingTargets user)))) =
      map url (pingTargets user)"
    by (rule fetched_ping_targets) (simp add: log_pinged_def)
  with Cons.IH show ?case
    by (simp add: ping_users_Cons Let_def fetched_append all_urls_def del: ping_users.simps)
qed

lemma saves_ping_users: "saves (snd (snd (ping_users net clock us))) = []"
proof (induction us arbitrary: clock)
  case Nil
  show ?case by simp
next
  case (Cons user rest)
  have "saves (snd (snd (ping_targets net (log_pinged user) clock (pingTargets user)))) = []"
    by (rule saves_ping_targets) (simp add: log_pinged_def)
  with Cons.IH show ?case
    by (simp add: ping_users_Cons Let_def saves_append del: ping_users.simps)
qed

lemma urls_ping_users:
  "map (\<lambda>user. map url (pingTargets user)) (fst (ping_users net clock us)) =
   map (\<lambda>user. map url (pingTargets user)) us"
proof (induction us arbitrary: clock)
  case Nil
  show ?case by simp
next
  case (Cons user rest)
  then show ?case
    by (simp add: ping_users_Cons Let_def urls_ping_targets del: ping_users.simps)
qed

lemma pingAllUrls_eq:
  "pingAllUrls net clock st =
     (let r = ping_users net clock (users st)
      in (st\<lparr>users := fst r\<rparr>, fst (snd r),
          Logged (StartingPingCycle clock) # snd (snd r) @ [Saved (fst r)]))"
  by (simp add: pingAllUrls_def Let_def split: prod.splits)

lemma sweep_example:
  "pingAllUrls net0 5000 with_targets =
     (\<lparr>users = swept, sessions = [(''tok'', session_r)]\<rparr>, 5084, sweep_events)"
  by (simp add: pingAllUrls_def with_targets_def alice_t_def alice_r_def example_target_def
      other_target_def pingUrl_def net0_def Let_def format_status_def show_int_def
      show_nat.simps digit_char_def log_pinged_def swept_def sweep_events_def)

text \<open>
  Claim C4: after one tick the accounts and their targets are those of before, by id and
  URL and in the same order; every target carries the outcome of a probe of its URL started
  at or after the tick's start, its status being the probe's status text followed by the
  elapsed milliseconds in parentheses, non-empty, and its \<open>lastPing\<close> the instant the probe
  finished; the requests were issued account by account and target by target; and the
  array was saved exactly once, as the last event, in its final state.
\<close>

theorem sweep_complete:
  "pingAllUrls net clock st = (st', clock', ev) \<Longrightarrow>
   map id_u (users st') = map id_u (users st) \<and>
   map (\<lambda>user. map url (pingTargets user)) (users st') =
     map (\<lambda>user. map url (pingTargets user)) (users st) \<and>
   (\<forall>user \<in> set (users st'). \<forall>t \<in> set (pingTargets user).
      \<exists>start result finish.
        clock \<le> start \<and> start \<le> finish \<and>
        pingUrl net start (url t) = (result, finish, [Fetched (url t)]) \<and>
        status t =
          Some (result_status result @ '' ('' @ show_int (responseTime result) @ ''ms)'') \<and>
        status t \<noteq> Some [] \<and> lastPing t = Some finish) \<and>
   fetched ev = all_urls (users st) \<and>
   saves ev = [users st'] \<and> last ev = Saved (users st')"
proof -
  assume a: "pingAllUrls net clock st = (st', clock', ev)"
  let ?r = "ping_users net clock (users st)"
  from a have st': "users st' = fst ?r"
    and ev: "ev = Logged (StartingPingCycle clock) # snd (snd ?r) @ [Saved (fst ?r)]"
    by (auto simp: pingAllUrls_eq Let_def)
  have ids: "map id_u (users st') = map id_u (users st)"
    by (simp add: st' ids_ping_users)
  have urls: "map (\<lambda>user. map url (pingTargets user)) (users st') =
     map (\<lambda>user. map url (pingTargets user)) (users st)"
    by (simp add: st' urls_ping_users)
  have each: "\<exists>start result finish.
        clock \<le> start \<and> start \<le> finish \<and>
        pingUrl net start (url t) = (result, finish, [Fetched (url t)]) \<and>
        status t =
          Some (result_status result @ '' ('' @ show_int (responseTime result) @ ''ms)'') \<and>
        status t \<noteq> Some [] \<and> lastPing t = Some finish"
    if "user \<in> set (users st')" and "t \<in> set (pingTargets user)" for user t
  proof -
    from that have "probed net clock t"
      by (simp add: st' probed_ping_users)
    then obtain start result finish where
      "clock \<le> start" "start \<le> finish"
      "pingUrl net start (url t) = (result, finish, [Fetched (url t)])"
      "status t =
         Some (result_status result @ '' ('' @ show_int (responseTime result) @ ''ms)'')"
      "lastPing t = Some finish"
      unfolding probed_def by blast
    then show ?thesis by auto
  qed
  have f: "fetched ev = all_urls (users st)"
    by (simp add: ev fetched_append fetched_ping_users)
  have s: "saves ev = [users st']"
    by (simp add: ev saves_append saves_ping_users st')
  have l: "last ev = Saved (users st')"
    by (simp add: ev st')
  from ids urls each f s l show ?thesis by blast
qed

theorem sweep_complete_witness:
  "pingAllUrls net0 5000 with_targets =
     (\<lparr>users = swept, sessions = [(''tok'', session_r)]\<rparr>, 5084, sweep_events) \<and>
   map (\<lambda>user. map url (pingTargets user)) swept = [[''https://example.com'', ''http://other.test'']] \<and>
   fetched sweep_events = [''https://example.com'', ''http://other.test''] \<and>
   saves sweep_events = [swept] \<and> last sweep_events = Saved swept"
  using sweep_complete [OF sweep_example] sweep_example
  by (simp add: with_targets_def alice_t_def alice_r_def example_target_def other_target_def
      all_urls_def)

section \<open>The prober returns an outcome on every path\<close>

lemma show_nat_digits: "show_nat n \<noteq> [] \<and> hd (show_nat n) \<in> set ''0123456789''"
proof (induction n rule: show_nat.induct)
  case (1 n)
  show ?case
  proof (cases "n < 10")
    case True
    then have "digit_char n \<in> set ''0123456789''"
      unfolding digit_char_def by (intro nth_mem) simp
    with True show ?thesis
      by (subst (1 2) show_nat.simps) simp
  next
    case False
    with 1 show ?thesis
      by (subst (1 2) show_nat.simps) simp
  qed
qed

lemma status_line_not_error: "\<not> prefix ''Error: '' (show_nat code @ '' '' @ statusText)"
proof
  assume "prefix ''Error: '' (show_nat code @ '' '' @ statusText)"
  then have "hd (show_nat code @ '' '' @ statusText) = CHR ''E''"
    by (auto simp: prefix_def)
  moreover have "hd (show_nat code @ '' '' @ statusText) = hd (show_nat code)"
    using show_nat_digits [of code] by simp
  ultimately show False
    using show_nat_digits [of code] by auto
qed

text \<open>
  Claim C5: \<open>pingUrl\<close> is a total function of the URL and the network. On a response it
  returns the status code and status text with the elapsed milliseconds, a text that never
  starts with \<open>Error: \<close>; on a rejection it returns \<open>Error: \<close> followed by the message, with
  the elapsed milliseconds, and the loop writes that outcome on the target and goes on with
  the rest of the list. Whatever the network answers, a tick issues one request per target
  of every account, in order.
\<close>

theorem probe_never_raises:
  "(fst (net u clock) = Response code statusText \<longrightarrow>
      pingUrl net clock u =
        (\<lparr>result_status = show_nat code @ '' '' @ statusText,
          responseTime = int (snd (net u clock))\<rparr>,
         clock + int (snd (net u clock)), [Fetched u]) \<and>
      \<not> prefix ''Error: '' (show_nat code @ '' '' @ statusText)) \<and>
   (fst (net u clock) = Rejected message \<longrightarrow>
      pingUrl net clock u =
        (\<lparr>result_status = ''Error: '' @ message, responseTime = int (snd (net u clock))\<rparr>,
         clock + int (snd (net u clock)), [Fetched u]) \<and>
      ping_targets net report clock (\<lparr>url = u, lastPing = seen, status = shown\<rparr> # rest) =
        (\<lparr>url = u, lastPing = Some (clock + int (snd (net u clock))),
           status = Some (''Error: '' @ message @ '' ('' @ show_int (int (snd (net u clock))) @ ''ms)'')\<rparr>
           # fst (ping_targets net report (clock + int (snd (net u clock))) rest),
         fst (snd (ping_targets net report (clock + int (snd (net u clock))) rest)),
         Fetched u
           # report u (''Error: '' @ message @ '' ('' @ show_int (int (snd (net u clock))) @ ''ms)'')
           @ snd (snd (ping_targets net report (clock + int (snd (net u clock))) rest)))) \<and>
   fetched (snd (snd (pingAllUrls net clock st))) = all_urls (users st) \<and>
   length (fetched (snd (snd (pingAllUrls net clock st)))) =
     sum_list (map (\<lambda>user. length (pingTargets user)) (users st))"
proof -
  have f: "fetched (snd (snd (pingAllUrls net clock st))) = all_urls (users st)"
    by (simp add: pingAllUrls_eq Let_def fetched_append fetched_ping_users)
  have n: "length (all_urls us) = sum_list (map (\<lambda>user. length (pingTargets user)) us)" for us
    by (induction us) (simp_all add: all_urls_def)
  have e: "\<not> prefix ''Error: '' (show_nat code @ '' '' @ statusText)"
    by (rule status_line_not_error)
  show ?thesis
    using e
    by (auto simp: f n pingUrl_def Let_def ping_targets_Cons format_status_def
        simp del: ping_targets.simps)
qed

theorem probe_never_raises_witness:
  "fst (net0 ''https://example.com'' 5000) = Response 200 ''OK'' \<and>
   pingUrl net0 5000 ''https://example.com'' =
     (\<lparr>result_status = ''200 OK'', responseTime = 42\<rparr>, 5042, [Fetched ''https://example.com'']) \<and>
   fst (net_down ''https://example.com'' 5000) = Rejected ''connect ECONNREFUSED'' \<and>
   pingUrl net_down 5000 ''https://example.com'' =
     (\<lparr>result_status = ''Error: connect ECONNREFUSED'', responseTime = 7\<rparr>, 5007,
      [Fetched ''https://example.com'']) \<and>
   users (fst (pingAllUrls net_down 5000 with_targets)) = swept_down \<and>
   fetched (snd (snd (pingAllUrls net_down 5000 with_targets))) =
     [''https://example.com'', ''http://other.test'']"
  using probe_never_raises [where net = net0 and u = "''https://example.com''" and clock = 5000
      and code = 200 and statusText = "''OK''"]
    probe_never_raises [where net = net_down and u = "''https://example.com''" and clock = 5000
      and message = "''connect ECONNREFUSED''" and st = with_targets
      and report = "log_pinged alice_t" and seen = None and shown = "Some neverPinged"
      and rest = "[other_target]"]
  by (simp add: pingAllUrls_def with_targets_def alice_t_def alice_r_def example_target_def
      other_target_def pingUrl_def net0_def net_down_def Let_def format_status_def show_int_def
      show_nat.simps digit_char_def log_pinged_def swept_down_def all_urls_def)

section \<open>Ticks that overlap\<close>

text \<open>
  First the writes of one tick: they have the shape above, they end when \<open>pingAllUrls\<close>
  ends, performing them gives the array \<open>pingAllUrls\<close> returns, and they depend on the URLs
  of the array only, so that writes already performed do not change those of a later tick.
\<close>

lemma target_writes_Cons:
  "target_writes net i j clock (t # ts) =
     (let clock1 = clock + int (snd (net (url t) clock));
          r = target_writes net i (Suc j) clock1 ts
      in (\<lparr>w_at = clock1, w_account = i, w_target = j, w_started = clock,
           w_lastPing = clock1, w_status = format_status (fst (pingUrl net clock (url t)))\<rparr> # fst r,
          snd r))"
proof -
  obtain result where
    "pingUrl net clock (url t) = (result, clock + int (snd (net (url t) clock)), [Fetched (url t)])"
    using pingUrl_shape by blast
  then show ?thesis
    by (simp add: Let_def split: prod.splits)
qed

lemma user_writes_Cons:
  "user_writes net i clock (user # rest) =
     (let r1 = target_writes net i 0 clock (pingTargets user);
          r2 = user_writes net (Suc i) (snd r1) rest
      in (fst r1 @ fst r2, snd r2))"
  by (simp add: Let_def split: prod.splits)

lemma tick_shape_Nil: "tick_shape s [] s"
  by (simp add: tick_shape_def)

lemma tick_shape_append:
  "tick_shape s ws1 m \<Longrightarrow> tick_shape m ws2 e \<Longrightarrow> tick_shape s (ws1 @ ws2) e"
  unfolding tick_shape_def
  by (fastforce simp: sorted_append)

lemma tick_shape_single:
  "s \<le> e \<Longrightarrow> tick_shape s [\<lparr>w_at = e, w_account = i, w_target = j, w_started = s,
      w_lastPing = e, w_status = x\<rparr>] e"
  by (simp add: tick_shape_def)

lemma shape_target_writes:
  "tick_shape clock (fst (target_writes net i j clock ts)) (snd (target_writes net i j clock ts))"
proof (induction ts arbitrary: j clock)
  case Nil
  show ?case by (simp add: tick_shape_Nil)
next
  case (Cons t ts)
  let ?c1 = "clock + int (snd (net (url t) clock))"
  have "tick_shape clock
      ([\<lparr>w_at = ?c1, w_account = i, w_target = j, w_started = clock, w_lastPing = ?c1,
         w_status = format_status (fst (pingUrl net clock (url t)))\<rparr>]
       @ fst (target_writes net i (Suc j) ?c1 ts))
      (snd (target_writes net i (Suc j) ?c1 ts))"
    by (rule tick_shape_append [OF tick_shape_single Cons.IH]) simp
  then show ?case
    by (simp add: target_writes_Cons Let_def del: target_writes.simps)
qed

lemma shape_user_writes:
  "tick_shape clock (fst (user_writes net i clock us)) (snd (user_writes net i clock us))"
proof (induction us arbitrary: i clock)
  case Nil
  show ?case by (simp add: tick_shape_Nil)
next
  case (Cons user rest)
  show ?case
    unfolding user_writes_Cons Let_def fst_conv snd_conv
    by (rule tick_shape_append [OF shape_target_writes Cons.IH])
qed

lemma end_target_writes:
  "snd (target_writes net i j clock ts) = fst (snd (ping_targets net report clock ts))"
proof (induction ts arbitrary: j clock)
  case Nil
  show ?case by simp
next
  case (Cons t ts)
  show ?case
    by (simp add: target_writes_Cons ping_targets_Cons Let_def Cons.IH
        del: target_writes.simps ping_targets.simps)
qed

lemma end_user_writes:
  "snd (user_writes net i clock us) = fst (snd (ping_users net clock us))"
proof (induction us arbitrary: i clock)
  case Nil
  show ?case by simp
next
  case (Cons user rest)
  show ?case
    by (simp add: user_writes_Cons ping_users_Cons Let_def Cons.IH
        end_target_writes [where report = "log_pinged user"]
        del: user_writes.simps ping_users.simps)
qed

lemma tick_end_eq: "tick_end net boot st k = snd (user_writes net 0 (tick_start boot k) (users st))"
  by (simp add: tick_end_def pingAllUrls_eq Let_def end_user_writes)

lemma shape_tick:
  "tick_shape (tick_start boot k) (tick_writes net (tick_start boot k) (users st))
     (tick_end net boot st k)"
  unfolding tick_writes_def tick_end_eq by (rule shape_user_writes)

lemma replay_target_writes:
  "length upre = i \<Longrightarrow> length pre = j \<Longrightarrow>
   foldl apply_write (upre @ u\<lparr>pingTargets := pre @ ts\<rparr> # urest)
     (fst (target_writes net i j clock ts)) =
   upre @ u\<lparr>pingTargets := pre @ fst (ping_targets net report clock ts)\<rparr> # urest"
proof (induction ts arbitrary: pre j clock)
  case Nil
  show ?case by simp
next
  case (Cons t ts)
  let ?c1 = "clock + int (snd (net (url t) clock))"
  let ?t' = "t\<lparr>lastPing := Some ?c1,
               status := Some (format_status (fst (pingUrl net clock (url t))))\<rparr>"
  let ?w = "\<lparr>w_at = ?c1, w_account = i, w_target = j, w_started = clock, w_lastPing = ?c1,
             w_status = format_status (fst (pingUrl net clock (url t)))\<rparr>"
  have step: "apply_write (upre @ u\<lparr>pingTargets := pre @ t # ts\<rparr> # urest) ?w =
      upre @ u\<lparr>pingTargets := (pre @ [?t']) @ ts\<rparr> # urest"
    using Cons.prems by (simp add: apply_write_def nth_append list_update_append)
  have "foldl apply_write (upre @ u\<lparr>pingTargets := (pre @ [?t']) @ ts\<rparr> # urest)
      (fst (target_writes net i (Suc j) ?c1 ts)) =
      upre @ u\<lparr>pingTargets := (pre @ [?t']) @ fst (ping_targets net report ?c1 ts)\<rparr> # urest"
    using Cons.prems by (intro Cons.IH) simp_all
  then show ?case
    by (simp add: target_writes_Cons ping_targets_Cons Let_def step
        del: target_writes.simps ping_targets.simps)
qed

lemma replay_user_writes:
  "length upre = i \<Longrightarrow>
   foldl apply_write (upre @ us) (fst (user_writes net i clock us)) =
   upre @ fst (ping_users net clock us)"
proof (induction us arbitrary: upre i clock)
  case Nil
  show ?case by simp
next
  case (Cons user rest)
  let ?r1 = "ping_targets net (log_pinged user) clock (pingTargets user)"
  let ?user' = "user\<lparr>pingTargets := fst ?r1\<rparr>"
  have c1: "snd (target_writes net i 0 clock (pingTargets user)) = fst (snd ?r1)"
    by (rule end_target_writes)
  have "foldl apply_write (upre @ user\<lparr>pingTargets := [] @ pingTargets user\<rparr> # rest)
      (fst (target_writes net i 0 clock (pingTargets user))) =
      upre @ user\<lparr>pingTargets := [] @ fst ?r1\<rparr> # rest"
    using Cons.prems by (intro replay_target_writes) simp_all
  then have first: "foldl apply_write (upre @ user # rest)
      (fst (target_writes net i 0 clock (pingTargets user))) = (upre @ [?user']) @ rest"
    by simp
  have "foldl apply_write ((upre @ [?user']) @ rest)
      (fst (user_writes net (Suc i) (fst (snd ?r1)) rest)) =
      (upre @ [?user']) @ fst (ping_users net (fst (snd ?r1)) rest)"
    using Cons.prems by (intro Cons.IH) simp
  then show ?case
    by (simp add: user_writes_Cons ping_users_Cons Let_def first c1
        del: user_writes.simps ping_users.simps)
qed

lemma replay_tick:
  "replay (tick_writes net start (users st)) (users st) = users (fst (pingAllUrls net start st))"
  using replay_user_writes [of "[]" 0 "users st" net start]
  by (simp add: replay_def tick_writes_def pingAllUrls_eq Let_def)

lemma target_writes_urls:
  "map url ts = map url ts' \<Longrightarrow>
   target_writes net i j clock ts = target_writes net i j clock ts'"
proof (induction ts arbitrary: ts' j clock)
  case Nil
  then show ?case by simp
next
  case (Cons t ts)
  then obtain t' rest' where ts': "ts' = t' # rest'" and u: "url t' = url t"
    and r: "map url ts = map url rest'"
    by (cases ts') auto
  show ?case
    unfolding ts' target_writes_Cons u
    using Cons.IH [OF r] by simp
qed

lemma user_writes_urls:
  "map (\<lambda>user. map url (pingTargets user)) us = map (\<lambda>user. map url (pingTargets user)) us' \<Longrightarrow>
   user_writes net i clock us = user_writes net i clock us'"
proof (induction us arbitrary: us' i clock)
  case Nil
  then show ?case by simp
next
  case (Cons user rest)
  then obtain user' rest' where us': "us' = user' # rest'"
    and u: "map url (pingTargets user) = map url (pingTargets user')"
    and r: "map (\<lambda>user. map url (pingTargets user)) rest =
            map (\<lambda>user. map url (pingTargets user)) rest'"
    by (cases us') auto
  show ?case
    unfolding us' user_writes_Cons target_writes_urls [OF u]
    using Cons.IH [OF r] by simp
qed

lemma map_update_same: "j < length xs \<Longrightarrow> (map f xs)[j := f (xs ! j)] = map f xs"
  by (simp add: list_eq_iff_nth_eq nth_list_update)

lemma urls_apply_write:
  "map (\<lambda>user. map url (pingTargets user)) (apply_write us w) =
   map (\<lambda>user. map url (pingTargets user)) us"
  by (auto simp: apply_write_def map_update list_update_same_conv map_update_same)

lemma urls_replay:
  "map (\<lambda>user. map url (pingTargets user)) (replay ws us) =
   map (\<lambda>user. map url (pingTargets user)) us"
  unfolding replay_def
  by (induction ws arbitrary: us) (simp_all add: urls_apply_write)

lemma tick_writes_replay: "tick_writes net start (replay ws us) = tick_writes net start us"
  unfolding tick_writes_def by (simp add: user_writes_urls [OF urls_replay])

lemma all_writes_Suc:
  "all_writes net boot us (Suc n) =
     all_writes net boot us n @ tick_writes net (tick_start boot n) us"
  by (simp add: all_writes_def)

lemma shape_tick_writes:
  "tick_shape start (tick_writes net start us) (snd (user_writes net 0 start us))"
  unfolding tick_writes_def by (rule shape_user_writes)

lemma stamp_all_writes:
  "w \<in> set (all_writes net boot us n) \<Longrightarrow> w_lastPing w = w_at w"
proof (induction n)
  case 0
  then show ?case by (simp add: all_writes_def)
next
  case (Suc n)
  then show ?case
    using shape_tick_writes [of "tick_start boot n" net us]
    by (auto simp: all_writes_Suc tick_shape_def)
qed

lemma sorted_lastPing_history:
  "sorted (map w_lastPing (filter P (history net boot us n)))"
proof -
  have s: "sorted (map w_at (filter P (history net boot us n)))"
    unfolding history_def by (intro sorted_filter sorted_sort_key)
  have eq: "map w_lastPing (filter P (history net boot us n)) =
      map w_at (filter P (history net boot us n))"
    by (rule map_cong) (auto simp: history_def stamp_all_writes)
  show ?thesis
    unfolding eq by (rule s)
qed

lemma duration_tick:
  "snd (user_writes net 0 start us) = start + tick_duration net start us"
  using shape_tick_writes [of start net us]
  by (simp add: tick_shape_def tick_duration_def)

lemma tick_start_Suc: "tick_start boot (Suc k) = tick_start boot k + 3000"
  by (simp add: tick_start_def)

lemma no_overlap_sorted:
  "(\<And>m. Suc m < n \<Longrightarrow>
      snd (user_writes net 0 (tick_start boot m) us) \<le> tick_start boot (Suc m)) \<Longrightarrow>
   sorted (map w_at (all_writes net boot us n)) \<and>
   sorted (map w_started (all_writes net boot us n)) \<and>
   (\<forall>w \<in> set (all_writes net boot us n).
      w_started w \<le> w_at w \<and>
      (\<forall>m. n = Suc m \<longrightarrow> w_at w \<le> snd (user_writes net 0 (tick_start boot m) us)))"
proof (induction n)
  case 0
  show ?case by (simp add: all_writes_def)
next
  case (Suc n)
  let ?e = "\<lambda>m. snd (user_writes net 0 (tick_start boot m) us)"
  let ?old = "all_writes net boot us n"
  let ?new = "tick_writes net (tick_start boot n) us"
  have IH: "sorted (map w_at ?old) \<and> sorted (map w_started ?old) \<and>
      (\<forall>w \<in> set ?old. w_started w \<le> w_at w \<and> (\<forall>m. n = Suc m \<longrightarrow> w_at w \<le> ?e m))"
    by (rule Suc.IH) (simp add: Suc.prems)
  have shape: "tick_shape (tick_start boot n) ?new (?e n)"
    by (rule shape_tick_writes)
  have before: "w_at w \<le> tick_start boot n" if "w \<in> set ?old" for w
  proof (cases n)
    case 0
    with that show ?thesis by (simp add: all_writes_def)
  next
    case (Suc m)
    with that IH have "w_at w \<le> ?e m" by blast
    also have "?e m \<le> tick_start boot (Suc m)"
      using Suc by (intro Suc.prems) simp
    finally show ?thesis using Suc by simp
  qed
  have cross: "w_at w \<le> w_started w' \<and> w_started w \<le> w_started w' \<and> w_at w \<le> w_at w'"
    if "w \<in> set ?old" and "w' \<in> set ?new" for w w'
  proof -
    have "w_at w \<le> tick_start boot n" using that(1) by (rule before)
    moreover have "tick_start boot n \<le> w_started w'" "w_started w' \<le> w_at w'"
      using shape that(2) by (auto simp: tick_shape_def)
    moreover have "w_started w \<le> w_at w" using IH that(1) by blast
    ultimately show ?thesis by linarith
  qed
  have s1: "sorted (map w_at (?old @ ?new))"
    using IH shape cross by (auto simp: sorted_append tick_shape_def)
  have s2: "sorted (map w_started (?old @ ?new))"
    using IH shape cross by (auto simp: sorted_append tick_shape_def)
  have bound: "w_started w \<le> w_at w \<and> w_at w \<le> ?e n" if "w \<in> set (?old @ ?new)" for w
  proof (cases "w \<in> set ?new")
    case True
    with shape show ?thesis by (auto simp: tick_shape_def)
  next
    case False
    with that have old: "w \<in> set ?old" by simp
    then have "w_at w \<le> tick_start boot n" by (rule before)
    moreover have "tick_start boot n \<le> ?e n" using shape by (simp add: tick_shape_def)
    moreover have "w_started w \<le> w_at w" using IH old by blast
    ultimately show ?thesis by linarith
  qed
  from s1 s2 bound show ?case
    by (simp add: all_writes_Suc)
qed

lemma quick_ticks:
  "tick_end net0 0 with_targets 0 = 3084 \<and> tick_start 0 (Suc 0) = 6000 \<and>
   all_writes net0 0 (users with_targets) 2 = quick_writes"
  by (simp add: tick_start_def tick_end_def pingAllUrls_def all_writes_def
      tick_writes_def numeral_2_eq_2 with_targets_def alice_t_def alice_r_def
      example_target_def other_target_def net0_def pingUrl_def Let_def
      format_status_def show_int_def show_nat.simps digit_char_def log_pinged_def
      quick_writes_def)

text \<open>
  Claim C3 says that ticks never overlap and that a target sees no racing writes. With a
  network that takes 4000 ms before instant 6000 and 10 ms from then on, the tick started at
  3000 ends at 7000, after the next tick has started at 6000; the newer tick writes its
  outcome at 6010, and at 7000 the older tick overwrites it with the outcome of the probe it
  started at 3000.
\<close>

theorem ticks_overlap_counterexample:
  "tick_start 0 0 = 3000 \<and> tick_end net_slow 0 one_target 0 = 7000 \<and>
   tick_start 0 1 = 6000 \<and>
   history net_slow 0 (users one_target) 2 = [fresh_write, stale_write] \<and>
   w_started stale_write < w_started fresh_write \<and>
   replay (history net_slow 0 (users one_target) 2) (users one_target) =
     [alice_r\<lparr>pingTargets := [\<lparr>url = ''https://example.com'', lastPing = Some 7000,
                                 status = Some ''200 OK (4000ms)''\<rparr>]\<rparr>]"
  by (simp add: tick_start_def tick_end_def pingAllUrls_def history_def all_writes_def
      tick_writes_def numeral_2_eq_2 sort_key_def replay_def apply_write_def
      one_target_def alice_r_def example_target_def net_slow_def pingUrl_def Let_def
      format_status_def show_int_def show_nat.simps digit_char_def log_pinged_def
      fresh_write_def stale_write_def)

text \<open>
  Claim C3, amended: a tick starts every 3000 ms whether or not the one before has
  finished; a tick lasts as long as its probes take in total, so it is still running when
  the next one starts exactly when that total exceeds 3000 ms; performing the writes of one
  tick gives what \<open>pingAllUrls\<close> leaves in the array; for any single target the \<open>lastPing\<close>
  instants, in the order in which they are written over any number of ticks, are
  non-decreasing, overlapping ticks or not; and when no tick runs past the start of the
  next, the writes happen tick after tick and in the order in which their probes started.
\<close>

theorem ticks_every_period:
  "tick_start boot (Suc k) = tick_start boot k + 3000 \<and>
   tick_end net boot st k = tick_start boot k + tick_duration net (tick_start boot k) (users st) \<and>
   (tick_start boot (Suc k) < tick_end net boot st k) =
     (3000 < tick_duration net (tick_start boot k) (users st)) \<and>
   replay (tick_writes net (tick_start boot k) (users st)) (users st) =
     users (fst (pingAllUrls net (tick_start boot k) st)) \<and>
   sorted (map w_lastPing (filter (on_target i j) (history net boot (users st) n))) \<and>
   ((\<forall>m. Suc m < n \<longrightarrow> tick_end net boot st m \<le> tick_start boot (Suc m)) \<longrightarrow>
      history net boot (users st) n = all_writes net boot (users st) n \<and>
      sorted (map w_started (history net boot (users st) n)))"
proof -
  have e: "tick_end net boot st k =
      tick_start boot k + tick_duration net (tick_start boot k) (users st)" for k
    by (simp add: tick_end_eq duration_tick)
  have quiet: "history net boot (users st) n = all_writes net boot (users st) n \<and>
      sorted (map w_started (history net boot (users st) n))"
    if "\<forall>m. Suc m < n \<longrightarrow> tick_end net boot st m \<le> tick_start boot (Suc m)"
  proof -
    have "sorted (map w_at (all_writes net boot (users st) n)) \<and>
        sorted (map w_started (all_writes net boot (users st) n))"
      using no_overlap_sorted [of n net boot "users st"] that
      by (simp add: tick_end_eq)
    then show ?thesis
      by (simp add: history_def sort_key_id_if_sorted)
  qed
  show ?thesis
  proof (intro conjI impI)
    show "tick_start boot (Suc k) = tick_start boot k + 3000"
      by (rule tick_start_Suc)
    show "tick_end net boot st k =
        tick_start boot k + tick_duration net (tick_start boot k) (users st)"
      by (rule e)
    show "(tick_start boot (Suc k) < tick_end net boot st k) =
        (3000 < tick_duration net (tick_start boot k) (users st))"
      by (simp add: e tick_start_Suc)
    show "replay (tick_writes net (tick_start boot k) (users st)) (users st) =
        users (fst (pingAllUrls net (tick_start boot k) st))"
      by (rule replay_tick)
    show "sorted (map w_lastPing (filter (on_target i j) (history net boot (users st) n)))"
      by (rule sorted_lastPing_history)
  next
    assume a: "\<forall>m. Suc m < n \<longrightarrow> tick_end net boot st m \<le> tick_start boot (Suc m)"
    show "history net boot (users st) n = all_writes net boot (users st) n"
      using quiet [OF a] by (rule conjunct1)
    show "sorted (map w_started (history net boot (users st) n))"
      using quiet [OF a] by (rule conjunct2)
  qed
qed

theorem ticks_every_period_witness:
  "tick_start 0 (Suc 0) = tick_start 0 0 + 3000 \<and>
   tick_end net0 0 with_targets 0 = 3084 \<and>
   tick_duration net0 (tick_start 0 0) (users with_targets) = 84 \<and>
   tick_end net0 0 with_targets 0 \<le> tick_start 0 (Suc 0) \<and>
   history net0 0 (users with_targets) 2 = quick_writes \<and>
   map w_lastPing (filter (on_target 0 0) (history net0 0 (users with_targets) 2)) =
     [3042, 6042] \<and>
   map w_started (history net0 0 (users with_targets) 2) = [3000, 3042, 6000, 6042] \<and>
   (tick_start 0 (Suc 0) < tick_end net_slow 0 one_target 0) \<and>
   3000 < tick_duration net_slow (tick_start 0 0) (users one_target)"
proof -
  have quiet: "\<forall>m. Suc m < 2 \<longrightarrow>
      tick_end net0 0 with_targets m \<le> tick_start 0 (Suc m)"
  proof (intro allI impI)
    fix m :: nat
    assume "Suc m < 2"
    then have "m = 0" by simp
    then show "tick_end net0 0 with_targets m \<le> tick_start 0 (Suc m)"
      using quick_ticks by simp
  qed
  have slow: "tick_end net_slow 0 one_target 0 = 7000"
    by (simp add: tick_start_def tick_end_def pingAllUrls_def one_target_def alice_r_def
        example_target_def net_slow_def pingUrl_def Let_def)
  show ?thesis
    using ticks_every_period [where boot = 0 and k = 0 and net = net0 and st = with_targets
        and n = 2 and i = 0 and j = 0]
      ticks_every_period [where boot = 0 and k = 0 and net = net_slow and st = one_target]
      quiet quick_ticks slow
    by (simp add: quick_writes_def on_target_def tick_start_def)
qed

end
